theory Spec2Isabelle
  imports Main "HOL-Library.AList"
begin

section \<open>Data model of WCS.py\<close>

text \<open>
  The script keeps one Python dict per function (a \<open>CallNode\<close>) and shares these dicts
  by reference between the symbol maps and the \<open>r_calls\<close> lists. The model keeps all
  dicts in one store, \<open>heap\<close>, a list indexed by reference; a dict key that may be
  absent is an \<open>option\<close> field. The keys \<open>tu\<close>, \<open>name\<close> and \<open>binding\<close> are set
  by every creation site.
\<close>

datatype error = KeyError | TypeError | ValueError | Exception string

datatype wcs_value = Unbounded | Bounded int

record call_node =
  tu :: string
  name :: string
  binding :: string
  demangledName :: "string option"
  calls :: "string list option"
  has_ptr_call :: "bool option"
  local_stack :: "int option"
  clob_sp :: "int option"
  is_manual :: "bool option"
  wcs :: "wcs_value option"
  r_calls :: "nat list option"
  unresolved_calls :: "string set option"

record symbol =
  sym_type :: string
  sym_binding :: string
  sym_name :: string

text \<open>
  The class attributes of \<open>CallGraph\<close>. Python dicts iterate in insertion order, so
  they are association lists maintained with \<open>AList.update\<close>.
\<close>

record call_graph =
  heap :: "call_node list"
  globals :: "(string \<times> nat) list"
  locals :: "(string \<times> (string \<times> nat) list) list"
  weak :: "(string \<times> nat) list"
  irqs :: "string list"

definition has_key :: "('k \<times> 'v) list \<Rightarrow> 'k \<Rightarrow> bool" where
  "has_key d k = (map_of d k \<noteq> None)"

definition new_node :: "string \<Rightarrow> string \<Rightarrow> string \<Rightarrow> call_node" where
  "new_node t n b =
     \<lparr>tu = t, name = n, binding = b, demangledName = None, calls = None,
      has_ptr_call = None, local_stack = None, clob_sp = None, is_manual = None,
      wcs = None, r_calls = None, unresolved_calls = None\<rparr>"

section \<open>CallGraph.read\_obj\<close>

text \<open>
  One iteration of the loop over the symbols of the object file. The new dict is
  allocated at the end of the heap.
\<close>

definition read_obj_symbol :: "call_graph \<Rightarrow> string \<Rightarrow> symbol \<Rightarrow> error + call_graph" where
  "read_obj_symbol cg t s =
     (if sym_type s = ''FUNC'' then
        if sym_binding s = ''GLOBAL'' then
          if has_key (globals cg) (sym_name s) \<or> has_key (locals cg) (sym_name s)
          then Inl (Exception (''Multiple declarations of '' @ sym_name s))
          else Inr (cg\<lparr>heap := heap cg @ [new_node t (sym_name s) (sym_binding s)],
                       globals := AList.update (sym_name s) (length (heap cg)) (globals cg)\<rparr>)
        else if sym_binding s = ''LOCAL'' then
          if (case map_of (locals cg) (sym_name s) of None \<Rightarrow> False | Some l \<Rightarrow> has_key l t)
          then Inl (Exception (''Multiple declarations of '' @ sym_name s))
          else
            let l = (case map_of (locals cg) (sym_name s) of None \<Rightarrow> [] | Some l \<Rightarrow> l)
            in Inr (cg\<lparr>heap := heap cg @ [new_node t (sym_name s) (sym_binding s)],
                         locals := AList.update (sym_name s)
                                     (AList.update t (length (heap cg)) l) (locals cg)\<rparr>)
        else if sym_binding s = ''WEAK'' then
          if has_key (weak cg) (sym_name s)
          then Inl (Exception (''Multiple declarations of '' @ sym_name s))
          else Inr (cg\<lparr>heap := heap cg @ [new_node t (sym_name s) (sym_binding s)],
                       weak := AList.update (sym_name s) (length (heap cg)) (weak cg)\<rparr>)
        else Inl (Exception (''Error Unknown Binding '' @ [CHR 0x22] @ sym_binding s
                              @ [CHR 0x22] @ '' for symbol: '' @ sym_name s))
      else Inr cg)"

fun read_obj_loop :: "call_graph \<Rightarrow> string \<Rightarrow> symbol list \<Rightarrow> error + call_graph" where
  "read_obj_loop cg t [] = Inr cg"
| "read_obj_loop cg t (s # ss) =
     (case read_obj_symbol cg t s of Inl e \<Rightarrow> Inl e | Inr cg' \<Rightarrow> read_obj_loop cg' t ss)"

text \<open>
  \<open>syms\<close> is what \<open>read_symbols\<close> returns for the object file; \<open>tu.index(".")\<close>
  raises ValueError when the unit name has no dot.
\<close>

definition read_obj :: "call_graph \<Rightarrow> string \<Rightarrow> symbol list \<Rightarrow> error + call_graph" where
  "read_obj cg t syms =
     (if CHR ''.'' \<notin> set t then Inl ValueError else read_obj_loop cg t syms)"

section \<open>CallGraph.find\_fxn\<close>

definition find_fxn :: "call_graph \<Rightarrow> string \<Rightarrow> string \<Rightarrow> nat option" where
  "find_fxn cg t fxn =
     (if has_key (globals cg) fxn then map_of (globals cg) fxn
      else case map_of (locals cg) fxn of
             None \<Rightarrow> None
           | Some l \<Rightarrow> map_of l t)"

section \<open>CallGraph.read\_manual\<close>

text \<open>
  One line of a manual stack usage file, already split into the name and the integer.
\<close>

definition manual_node :: "string \<Rightarrow> int \<Rightarrow> call_node" where
  "manual_node fxn stack_sz =
     \<lparr>tu = ''#MANUAL'', name = fxn, binding = ''GLOBAL'', demangledName = Some fxn,
      calls = Some [], has_ptr_call = Some False, local_stack = Some stack_sz,
      clob_sp = None, is_manual = Some True, wcs = Some (Bounded stack_sz),
      r_calls = None, unresolved_calls = None\<rparr>"

definition read_manual_line :: "call_graph \<Rightarrow> string \<times> int \<Rightarrow> error + call_graph" where
  "read_manual_line cg ln =
     (case ln of (fxn, stack_sz) \<Rightarrow>
        if has_key (globals cg) fxn then Inl (Exception (''Redeclared Function '' @ fxn))
        else Inr (cg\<lparr>heap := heap cg @ [manual_node fxn stack_sz],
                     globals := AList.update fxn (length (heap cg)) (globals cg)\<rparr>))"

fun read_manual :: "call_graph \<Rightarrow> (string \<times> int) list \<Rightarrow> error + call_graph" where
  "read_manual cg [] = Inr cg"
| "read_manual cg (ln # lns) =
     (case read_manual_line cg ln of Inl e \<Rightarrow> Inl e | Inr cg' \<Rightarrow> read_manual cg' lns)"

section \<open>CallGraph.resolve\_all\_calls\<close>

text \<open>The functions visited by the loops over \<open>globals\<close> and then \<open>locals\<close>, in order.\<close>

definition all_fxns :: "call_graph \<Rightarrow> nat list" where
  "all_fxns cg = map snd (globals cg) @ concat (map (\<lambda>nl. map snd (snd nl)) (locals cg))"

text \<open>The loop of \<open>resolve_calls\<close> over the textual callees of one function.\<close>

fun resolve_loop ::
  "call_graph \<Rightarrow> string \<Rightarrow> string list \<Rightarrow> nat list \<Rightarrow> string set \<Rightarrow> nat list \<times> string set" where
  "resolve_loop cg t [] rs us = (rs, us)"
| "resolve_loop cg t (call # cs) rs us =
     (case find_fxn cg t call of
        Some call_dict \<Rightarrow> resolve_loop cg t cs (rs @ [call_dict]) us
      | None \<Rightarrow> resolve_loop cg t cs rs (insert call us))"

definition resolve_calls :: "call_graph \<Rightarrow> call_node \<Rightarrow> call_node" where
  "resolve_calls cg d =
     (case calls d of
        None \<Rightarrow> d\<lparr>r_calls := Some [], unresolved_calls := Some {}\<rparr>
      | Some cs \<Rightarrow>
          (case resolve_loop cg (tu d) cs [] {} of
             (rs, us) \<Rightarrow> d\<lparr>r_calls := Some rs, unresolved_calls := Some us\<rparr>))"

fun resolve_fxns :: "call_graph \<Rightarrow> nat list \<Rightarrow> call_node list \<Rightarrow> call_node list" where
  "resolve_fxns cg [] h = h"
| "resolve_fxns cg (r # rs) h = resolve_fxns cg rs (h[r := resolve_calls cg (h ! r)])"

definition resolve_all_calls :: "call_graph \<Rightarrow> call_graph" where
  "resolve_all_calls cg = cg\<lparr>heap := resolve_fxns cg (all_fxns cg) (heap cg)\<rparr>"

section \<open>calc\_wcs\<close>

text \<open>Lines 98 to 103: the value stored once every callee has been combined.\<close>

definition finish_wcs :: "call_node \<Rightarrow> int \<Rightarrow> call_node" where
  "finish_wcs d call_max =
     (let d1 = (if local_stack d = None then d\<lparr>local_stack := Some 0\<rparr> else d);
          w = call_max + the (local_stack d1)
      in case clob_sp d1 of
           None \<Rightarrow> d1\<lparr>wcs := Some (Bounded w)\<rparr>
         | Some c \<Rightarrow> d1\<lparr>wcs := Some (Bounded (w + (w + c)))\<rparr>)"

text \<open>Propagation of the unresolved calls of a callee into the set of the caller.\<close>

definition propagate :: "call_node list \<Rightarrow> nat \<Rightarrow> string set \<Rightarrow> error + call_node list" where
  "propagate h f u =
     (if u = {} then Inr h
      else case unresolved_calls (h ! f) of
             None \<Rightarrow> Inl KeyError
           | Some fu \<Rightarrow> Inr (h[f := (h ! f)\<lparr>unresolved_calls := Some (fu \<union> u)\<rparr>]))"

text \<open>
  The loop over \<open>r_calls\<close>, followed by the rest of the function body. \<open>rec\<close> is the
  recursive call of \<open>calc_wcs\<close>; \<open>None\<close> stands for a call that has not returned.
\<close>

primrec calc_calls ::
  "(call_node list \<Rightarrow> nat list \<Rightarrow> nat \<Rightarrow> (error + call_node list) option) \<Rightarrow>
   call_node list \<Rightarrow> nat list \<Rightarrow> nat \<Rightarrow> int \<Rightarrow> nat list \<Rightarrow> (error + call_node list) option" where
  "calc_calls rec h parents f call_max [] =
     Some (Inr (h[f := finish_wcs (h ! f) call_max]))"
| "calc_calls rec h parents f call_max (c # cs) =
     (case rec h (parents @ [f]) c of
        None \<Rightarrow> None
      | Some (Inl e) \<Rightarrow> Some (Inl e)
      | Some (Inr h1) \<Rightarrow>
          (case wcs (h1 ! c) of
             None \<Rightarrow> Some (Inl KeyError)
           | Some Unbounded \<Rightarrow> Some (Inr (h1[f := (h1 ! f)\<lparr>wcs := Some Unbounded\<rparr>]))
           | Some (Bounded v) \<Rightarrow>
               (case unresolved_calls (h1 ! c) of
                  None \<Rightarrow> Some (Inl KeyError)
                | Some u \<Rightarrow>
                    (case propagate h1 f u of
                       Inl e \<Rightarrow> Some (Inl e)
                     | Inr h2 \<Rightarrow> calc_calls rec h2 parents f (max call_max v) cs))))"

text \<open>
  \<open>calc_wcs\<close> with a bound on the recursion depth as first argument. Membership of
  a dict in \<open>parents\<close> is membership of its reference: the loaders keep the leading
  keys (\<open>tu\<close>, \<open>name\<close>, \<open>binding\<close>) of distinct dicts distinct.
\<close>

primrec calc_wcs ::
  "nat \<Rightarrow> call_node list \<Rightarrow> nat list \<Rightarrow> nat \<Rightarrow> (error + call_node list) option" where
  "calc_wcs 0 h parents f = None"
| "calc_wcs (Suc n) h parents f =
     (if wcs (h ! f) \<noteq> None then Some (Inr h)
      else
        let h1 = (if has_ptr_call (h ! f) = None
                  then h[f := (h ! f)\<lparr>has_ptr_call := Some False\<rparr>] else h)
        in if has_ptr_call (h1 ! f) = Some True
           then Some (Inr (h1[f := (h1 ! f)\<lparr>wcs := Some Unbounded\<rparr>]))
           else if f \<in> set parents
           then Some (Inr (h1[f := (h1 ! f)\<lparr>wcs := Some Unbounded\<rparr>]))
           else case r_calls (h1 ! f) of
                  None \<Rightarrow> Some (Inl KeyError)
                | Some rs \<Rightarrow> calc_calls (calc_wcs n) h1 parents f 0 rs)"

section \<open>CallGraph.calc\_all\_wcs\<close>

fun calc_fxns :: "nat \<Rightarrow> nat list \<Rightarrow> call_node list \<Rightarrow> (error + call_node list) option" where
  "calc_fxns n [] h = Some (Inr h)"
| "calc_fxns n (r # rs) h =
     (case calc_wcs n h [] r of
        None \<Rightarrow> None
      | Some (Inl e) \<Rightarrow> Some (Inl e)
      | Some (Inr h1) \<Rightarrow> calc_fxns n rs h1)"

definition calc_all_wcs :: "nat \<Rightarrow> call_graph \<Rightarrow> (error + call_graph) option" where
  "calc_all_wcs n cg =
     (case calc_fxns n (all_fxns cg) (heap cg) of
        None \<Rightarrow> None
      | Some (Inl e) \<Rightarrow> Some (Inl e)
      | Some (Inr h) \<Rightarrow> Some (Inr (cg\<lparr>heap := h\<rparr>)))"

section \<open>CallGraph.check\_stack\_size\<close>

text \<open>
  The running maxima and the names that reached them. Comparing the string
  \<open>'unbounded'\<close> with an integer raises TypeError in Python 3.
\<close>

record maxima =
  max_stack :: int
  max_irq :: int
  max_stack_fxn_name :: string
  max_stack_irq_name :: string

definition startswith :: "string \<Rightarrow> string \<Rightarrow> bool" where
  "startswith s p = (take (length p) s = p)"

definition gt_int :: "wcs_value option \<Rightarrow> int \<Rightarrow> error + bool" where
  "gt_int w m =
     (case w of
        None \<Rightarrow> Inl KeyError
      | Some Unbounded \<Rightarrow> Inl TypeError
      | Some (Bounded v) \<Rightarrow> Inr (v > m))"

definition the_int :: "wcs_value option \<Rightarrow> int" where
  "the_int w = (case w of Some (Bounded v) \<Rightarrow> v | _ \<Rightarrow> 0)"

definition scan_step :: "maxima \<Rightarrow> call_node \<Rightarrow> error + maxima" where
  "scan_step m d =
     (case (if \<not> startswith (name d) ''_irq''
            then (case gt_int (wcs d) (max_stack m) of
                    Inl e \<Rightarrow> Inl e
                  | Inr b \<Rightarrow> Inr (if b then m\<lparr>max_stack := the_int (wcs d),
                                              max_stack_fxn_name := name d\<rparr> else m))
            else Inr m) of
        Inl e \<Rightarrow> Inl e
      | Inr m1 \<Rightarrow>
          if startswith (name d) ''_irq''
          then (case gt_int (wcs d) (max_irq m1) of
                  Inl e \<Rightarrow> Inl e
                | Inr b \<Rightarrow> Inr (if b then m1\<lparr>max_irq := the_int (wcs d),
                                             max_stack_irq_name := name d\<rparr> else m1))
          else Inr m1)"

fun scan :: "maxima \<Rightarrow> call_node list \<Rightarrow> error + maxima" where
  "scan m [] = Inr m"
| "scan m (d # ds) = (case scan_step m d of Inl e \<Rightarrow> Inl e | Inr m1 \<Rightarrow> scan m1 ds)"

text \<open>The two messages the function can print.\<close>

datatype verdict =
    TooSmall int string string
  | Sufficient int

definition check_stack_size :: "call_graph \<Rightarrow> int \<Rightarrow> error + verdict" where
  "check_stack_size cg stack_size =
     (case scan \<lparr>max_stack = 0, max_irq = 0, max_stack_fxn_name = [], max_stack_irq_name = []\<rparr>
             (map (\<lambda>r. heap cg ! r) (all_fxns cg)) of
        Inl e \<Rightarrow> Inl e
      | Inr m \<Rightarrow>
          let w = max_stack m + max_irq m
          in if w > stack_size
             then Inr (TooSmall w (max_stack_irq_name m) (max_stack_fxn_name m))
             else Inr (Sufficient w))"

section \<open>The passes in the order of main\<close>

definition empty_graph :: call_graph where
  "empty_graph = \<lparr>heap = [], globals = [], locals = [], weak = [], irqs = []\<rparr>"

text \<open>Resolution followed by the computation, as \<open>main\<close> runs them.\<close>

definition analyse :: "nat \<Rightarrow> call_graph \<Rightarrow> (error + call_graph) option" where
  "analyse n cg = calc_all_wcs n (resolve_all_calls cg)"

text \<open>
  The dict of a global function of unit \<open>prog.elf\<close> once \<open>read_rtl\<close> and \<open>read_su\<close>
  have filled in its textual callees, its pointer call flag and its local stack.
\<close>

definition fxn_node :: "string \<Rightarrow> string list \<Rightarrow> bool \<Rightarrow> int \<Rightarrow> call_node" where
  "fxn_node n cs p ls =
     (new_node ''prog.elf'' n ''GLOBAL'')\<lparr>demangledName := Some n, calls := Some cs,
        has_ptr_call := Some p, local_stack := Some ls\<rparr>"

text \<open>The local dict registered for a name in a unit: \<open>self.locals[fxn][tu]\<close>, if any.\<close>

definition local_lookup :: "call_graph \<Rightarrow> string \<Rightarrow> string \<Rightarrow> nat option" where
  "local_lookup cg t fxn =
     (case map_of (locals cg) fxn of None \<Rightarrow> None | Some l \<Rightarrow> map_of l t)"

subsection \<open>Example graphs\<close>

text \<open>One function that contains a call through a pointer.\<close>

definition ptr_graph :: call_graph where
  "ptr_graph = empty_graph\<lparr>heap := [fxn_node ''f'' [] True 8], globals := [(''f'', 0)]\<rparr>"

text \<open>One leaf function of 8 bytes whose inline assembly lowers the stack pointer by 4.\<close>

definition clobber_graph :: call_graph where
  "clobber_graph =
     empty_graph\<lparr>heap := [(fxn_node ''f'' [] False 8)\<lparr>clob_sp := Some 4\<rparr>],
                  globals := [(''f'', 0)]\<rparr>"

section \<open>Notions for reasoning about calc\_wcs\<close>

text \<open>
  The frame bytes of a dict (0 until \<open>local_stack\<close> is set), what \<open>calc_wcs\<close> never
  changes in a dict (\<open>keeps\<close>), and how a heap relates to the heap a call started
  from (\<open>evolves\<close>): a dict that already had a \<open>wcs\<close> is left as it was.
\<close>

definition own_stack :: "call_node \<Rightarrow> int" where
  "own_stack d = (case local_stack d of None \<Rightarrow> 0 | Some b \<Rightarrow> b)"

definition keeps :: "call_node \<Rightarrow> call_node \<Rightarrow> bool" where
  "keeps d d' =
     (tu d' = tu d \<and> name d' = name d \<and> binding d' = binding d \<and> calls d' = calls d
      \<and> r_calls d' = r_calls d \<and> clob_sp d' = clob_sp d \<and> own_stack d' = own_stack d
      \<and> (has_ptr_call d' = Some True) = (has_ptr_call d = Some True)
      \<and> (\<forall>u. unresolved_calls d = Some u \<longrightarrow>
             (\<exists>u'. unresolved_calls d' = Some u' \<and> u \<subseteq> u')))"

definition evolves :: "call_node list \<Rightarrow> call_node list \<Rightarrow> bool" where
  "evolves h h' =
     (length h' = length h
      \<and> (\<forall>n<length h. keeps (h ! n) (h' ! n) \<and> (wcs (h ! n) \<noteq> None \<longrightarrow> h' ! n = h ! n)))"

definition dflt_ptr :: "call_node list \<Rightarrow> nat \<Rightarrow> call_node list" where
  "dflt_ptr h f = (if has_ptr_call (h ! f) = None
                  then h[f := (h ! f)\<lparr>has_ptr_call := Some False\<rparr>] else h)"

definition set_unbounded :: "call_node list \<Rightarrow> nat \<Rightarrow> call_node list" where
  "set_unbounded h f = h[f := (h ! f)\<lparr>wcs := Some Unbounded\<rparr>]"

definition node_ok :: "call_node list \<Rightarrow> nat \<Rightarrow> bool" where
  "node_ok h f = (f < length h \<and> r_calls (h ! f) \<noteq> None \<and> unresolved_calls (h ! f) \<noteq> None)"

definition linked :: "call_node list \<Rightarrow> bool" where
  "linked h = (\<forall>n<length h. \<forall>rs. r_calls (h ! n) = Some rs \<longrightarrow> (\<forall>c\<in>set rs. node_ok h c))"

definition ctx :: "call_node list \<Rightarrow> nat list \<Rightarrow> nat \<Rightarrow> bool" where
  "ctx h ps f = (linked h \<and> node_ok h f \<and> (\<forall>p\<in>set ps. node_ok h p))"

definition cut_node :: "call_node \<Rightarrow> call_node" where
  "cut_node d = (if has_ptr_call d = None then d\<lparr>has_ptr_call := Some False\<rparr> else d)
                  \<lparr>wcs := Some Unbounded\<rparr>"

definition is_bounded :: "call_node \<Rightarrow> bool" where
  "is_bounded d = (case wcs d of Some (Bounded v) \<Rightarrow> True | _ \<Rightarrow> False)"

definition call_edges :: "call_node list \<Rightarrow> (nat \<times> nat) set" where
  "call_edges h = {(f, c). f < length h \<and> (\<exists>rs. r_calls (h ! f) = Some rs \<and> c \<in> set rs)}"

definition no_ptr_bounded :: "call_node list \<Rightarrow> nat \<Rightarrow> bool" where
  "no_ptr_bounded h x = (has_ptr_call (h ! x) = Some True \<longrightarrow> \<not> is_bounded (h ! x))"

definition bounded_closed :: "call_node list \<Rightarrow> bool" where
  "bounded_closed h =
     (\<forall>n<length h. is_bounded (h ! n) \<longrightarrow>
        (\<forall>c. (n, c) \<in> call_edges h \<longrightarrow> is_bounded (h ! c)) \<and> (n, n) \<notin> (call_edges h)\<^sup>+)"

definition justified :: "call_node list \<Rightarrow> nat list \<Rightarrow> bool" where
  "justified h ps =
     (\<forall>n<length h. wcs (h ! n) = Some Unbounded \<longrightarrow>
        has_ptr_call (h ! n) = Some True
        \<or> (\<exists>c. (n, c) \<in> call_edges h \<and> wcs (h ! c) = Some Unbounded)
        \<or> n \<in> set ps)"

definition call_max :: "call_node list \<Rightarrow> nat list \<Rightarrow> int" where
  "call_max h rs = fold (\<lambda>c m. max m (the_int (wcs (h ! c)))) rs 0"

definition final_value :: "call_node \<Rightarrow> int \<Rightarrow> int" where
  "final_value d m =
     (let w = m + own_stack d in case clob_sp d of None \<Rightarrow> w | Some c \<Rightarrow> w + (w + c))"

definition the_unresolved :: "call_node \<Rightarrow> string set" where
  "the_unresolved d = (case unresolved_calls d of None \<Rightarrow> {} | Some u \<Rightarrow> u)"

definition settled :: "call_node list \<Rightarrow> call_node list \<Rightarrow> nat list \<Rightarrow> bool" where
  "settled h0 h ps =
     (\<forall>n<length h.
        (wcs (h ! n) = None \<and> n \<notin> set ps \<longrightarrow> unresolved_calls (h ! n) = unresolved_calls (h0 ! n))
      \<and> (is_bounded (h ! n) \<and> wcs (h0 ! n) = None \<longrightarrow>
           (\<exists>rs. r_calls (h ! n) = Some rs \<and> (\<forall>c\<in>set rs. is_bounded (h ! c))
              \<and> wcs (h ! n) = Some (Bounded (final_value (h ! n) (call_max h rs)))
              \<and> unresolved_calls (h ! n)
                  = Some (the_unresolved (h0 ! n) \<union> (\<Union>c\<in>set rs. the_unresolved (h ! c))))))"

section \<open>Resolved graphs\<close>

text \<open>
  A graph as \<open>resolve_all_calls\<close> leaves it: every callee reference points into the
  heap at a dict that has been resolved itself, and so has every function of
  \<open>globals\<close> and \<open>locals\<close>.
\<close>

definition resolved_graph :: "call_graph \<Rightarrow> bool" where
  "resolved_graph cg = (linked (heap cg) \<and> (\<forall>r\<in>set (all_fxns cg). node_ok (heap cg) r))"

text \<open>
  A dict before \<open>calc_all_wcs\<close> runs: it has no \<open>wcs\<close> yet, or it is a manual
  entry, whose \<open>wcs\<close> is its own stack size and which calls nothing.
\<close>

definition loaded :: "call_node \<Rightarrow> bool" where
  "loaded d = (wcs d = None \<or> (wcs d = Some (Bounded (own_stack d)) \<and> r_calls d = Some []))"

subsection \<open>More example graphs\<close>

text \<open>Two functions that call each other.\<close>

definition cycle_graph :: call_graph where
  "cycle_graph =
     empty_graph\<lparr>heap := [fxn_node ''A'' [''B''] False 8, fxn_node ''B'' [''A''] False 12],
                  globals := [(''A'', 0), (''B'', 1)]\<rparr>"

text \<open>A function with a pointer call and one resolved callee.\<close>

definition ptr_callee_graph :: call_graph where
  "ptr_callee_graph =
     empty_graph\<lparr>heap := [fxn_node ''f'' [''g''] True 8, fxn_node ''g'' [] False 4],
                  globals := [(''f'', 0), (''g'', 1)]\<rparr>"

section \<open>The result in the words of the specification\<close>

text \<open>The resolved callees of a dict, none while \<open>r_calls\<close> is absent.\<close>

definition resolved_callees :: "call_node \<Rightarrow> nat list" where
  "resolved_callees d = (case r_calls d of None \<Rightarrow> [] | Some rs \<Rightarrow> rs)"

text \<open>
  The maximum Bounded value among the callees, 0 if there is none. (The loop of
  \<open>calc_wcs\<close> computes \<open>call_max\<close> instead, the maximum of 0 and the values.)
\<close>

definition callee_max :: "call_node list \<Rightarrow> nat list \<Rightarrow> int" where
  "callee_max h rs = (if rs = [] then 0 else Max ((\<lambda>c. the_int (wcs (h ! c))) ` set rs))"

text \<open>
  A dict with no pointer call and no clobbered bytes, whose frame size is a byte count.
\<close>

definition plain :: "call_node \<Rightarrow> bool" where
  "plain d = (has_ptr_call d \<noteq> Some True \<and> clob_sp d = None \<and> 0 \<le> own_stack d)"

subsection \<open>Example graphs with callees\<close>

text \<open>A calls B calls C, with 8, 12 and 4 bytes of local stack.\<close>

definition chain_graph :: call_graph where
  "chain_graph =
     empty_graph\<lparr>heap := [fxn_node ''A'' [''B''] False 8, fxn_node ''B'' [''C''] False 12,
                           fxn_node ''C'' [] False 4],
                  globals := [(''A'', 0), (''B'', 1), (''C'', 2)]\<rparr>"

text \<open>
  \<open>f\<close> calls \<open>g\<close> and the unknown \<open>ext\<close>; \<open>g\<close> calls the unknown \<open>ext2\<close>.
\<close>

definition unres_graph :: call_graph where
  "unres_graph =
     empty_graph\<lparr>heap := [fxn_node ''f'' [''g'', ''ext''] False 8, fxn_node ''g'' [''ext2''] False 4],
                  globals := [(''f'', 0), (''g'', 1)]\<rparr>"

text \<open>The same, where \<open>g\<close> also contains a pointer call.\<close>

definition unb_callee_graph :: call_graph where
  "unb_callee_graph =
     empty_graph\<lparr>heap := [fxn_node ''f'' [''g'', ''ext''] False 8, fxn_node ''g'' [''ext2''] True 4],
                  globals := [(''f'', 0), (''g'', 1)]\<rparr>"

section \<open>The whole pipeline\<close>

text \<open>
  A graph as the readers leave it: every reference held by the namespaces is a dict of the
  heap, and a dict that no namespace holds any more (one replaced by a later definition
  of the same name) has never been resolved.
\<close>

definition loaded_graph :: "call_graph \<Rightarrow> bool" where
  "loaded_graph cg =
     ((\<forall>r\<in>set (all_fxns cg). r < length (heap cg))
      \<and> (\<forall>n<length (heap cg). n \<notin> set (all_fxns cg) \<longrightarrow> r_calls (heap cg ! n) = None))"

text \<open>The graph \<open>unres_graph\<close> after one resolution and one computation.\<close>

definition unres_once :: call_graph where
  "unres_once =
     empty_graph\<lparr>heap :=
        [(fxn_node ''f'' [''g'', ''ext''] False 8)\<lparr>wcs := Some (Bounded 12), r_calls := Some [1],
            unresolved_calls := Some {''ext'', ''ext2''}\<rparr>,
         (fxn_node ''g'' [''ext2''] False 4)\<lparr>wcs := Some (Bounded 4), r_calls := Some [],
            unresolved_calls := Some {''ext2''}\<rparr>],
        globals := [(''f'', 0), (''g'', 1)]\<rparr>"

text \<open>The same after a second resolution and a second computation.\<close>

definition unres_twice :: call_graph where
  "unres_twice =
     empty_graph\<lparr>heap :=
        [(fxn_node ''f'' [''g'', ''ext''] False 8)\<lparr>wcs := Some (Bounded 12), r_calls := Some [1],
            unresolved_calls := Some {''ext''}\<rparr>,
         (fxn_node ''g'' [''ext2''] False 4)\<lparr>wcs := Some (Bounded 4), r_calls := Some [],
            unresolved_calls := Some {''ext2''}\<rparr>],
        globals := [(''f'', 0), (''g'', 1)]\<rparr>"

text \<open>\<open>main\<close>, with 8 bytes of local stack, calls only \<open>__assert_func\<close>.\<close>

definition caller_graph :: call_graph where
  "caller_graph =
     empty_graph\<lparr>heap := [fxn_node ''main'' [''__assert_func''] False 8],
                  globals := [(''main'', 0)]\<rparr>"

text \<open>The same after the manual line \<open>__assert_func 16\<close> has been read.\<close>

definition manual_graph :: call_graph where
  "manual_graph =
     empty_graph\<lparr>heap := [fxn_node ''main'' [''__assert_func''] False 8,
                           manual_node ''__assert_func'' 16],
                  globals := [(''main'', 0), (''__assert_func'', 1)]\<rparr>"

text \<open>The dict of a manual line after \<open>resolve_calls\<close>.\<close>

definition resolved_manual :: "string \<Rightarrow> int \<Rightarrow> call_node" where
  "resolved_manual fxn b = (manual_node fxn b)\<lparr>r_calls := Some [], unresolved_calls := Some {}\<rparr>"

section \<open>Symbol lookup and registration\<close>

text \<open>
  C7. \<open>find_fxn\<close> returns the dict registered under the name in \<open>globals\<close> when there
  is one; otherwise the dict registered under the name for the given unit in \<open>locals\<close>
  when there is one; otherwise nothing.
\<close>

theorem find_fxn_precedence:
  "find_fxn cg u n =
     (case map_of (globals cg) n of
        Some g \<Rightarrow> Some g
      | None \<Rightarrow> local_lookup cg u n)"
  by (simp add: find_fxn_def has_key_def local_lookup_def split: option.splits)

text \<open>
  C10. Registering a GLOBAL function symbol raises when the name is registered as a
  local of any unit \<open>u\<close>, whatever the unit \<open>t\<close> being read. Registering a LOCAL
  function symbol whose name is registered as a global succeeds, provided the unit has
  no local of that name yet: the new dict is appended and becomes the local of the unit,
  and \<open>globals\<close> is untouched.
\<close>

theorem read_obj_collision_asymmetry:
  "(local_lookup cg u n = Some r \<longrightarrow>
      read_obj_symbol cg t \<lparr>sym_type = ''FUNC'', sym_binding = ''GLOBAL'', sym_name = n\<rparr>
        = Inl (Exception (''Multiple declarations of '' @ n)))
   \<and> (map_of (globals cg) n = Some g \<and> local_lookup cg t n = None \<longrightarrow>
      (\<exists>cg'. read_obj_symbol cg t \<lparr>sym_type = ''FUNC'', sym_binding = ''LOCAL'', sym_name = n\<rparr>
                = Inr cg'
             \<and> globals cg' = globals cg
             \<and> local_lookup cg' t n = Some (length (heap cg))
             \<and> heap cg' = heap cg @ [new_node t n ''LOCAL'']))"
  by (auto simp: read_obj_symbol_def has_key_def local_lookup_def Let_def update_conv'
           split: option.splits)

theorem read_obj_collision_asymmetry_witness:
  "local_lookup (empty_graph\<lparr>heap := [new_node ''a.elf'' ''f'' ''LOCAL''],
                             locals := [(''f'', [(''a.elf'', 0)])]\<rparr>) ''a.elf'' ''f'' = Some 0
   \<and> read_obj_symbol (empty_graph\<lparr>heap := [new_node ''a.elf'' ''f'' ''LOCAL''],
                                   locals := [(''f'', [(''a.elf'', 0)])]\<rparr>) ''b.elf''
        \<lparr>sym_type = ''FUNC'', sym_binding = ''GLOBAL'', sym_name = ''f''\<rparr>
       = Inl (Exception ''Multiple declarations of f'')
   \<and> map_of (globals (empty_graph\<lparr>heap := [new_node ''a.elf'' ''f'' ''GLOBAL''],
                                   globals := [(''f'', 0)]\<rparr>)) ''f'' = Some 0
   \<and> local_lookup (empty_graph\<lparr>heap := [new_node ''a.elf'' ''f'' ''GLOBAL''],
                                globals := [(''f'', 0)]\<rparr>) ''b.elf'' ''f'' = None
   \<and> (\<exists>cg'. read_obj_symbol (empty_graph\<lparr>heap := [new_node ''a.elf'' ''f'' ''GLOBAL''],
                                          globals := [(''f'', 0)]\<rparr>) ''b.elf''
               \<lparr>sym_type = ''FUNC'', sym_binding = ''LOCAL'', sym_name = ''f''\<rparr> = Inr cg'
            \<and> local_lookup cg' ''b.elf'' ''f'' = Some 1)"
  using read_obj_collision_asymmetry
          [of "empty_graph\<lparr>heap := [new_node ''a.elf'' ''f'' ''LOCAL''],
                            locals := [(''f'', [(''a.elf'', 0)])]\<rparr>"
              "''a.elf''" "''f''" 0 "''b.elf''"]
        read_obj_collision_asymmetry
          [of "empty_graph\<lparr>heap := [new_node ''a.elf'' ''f'' ''GLOBAL''],
                            globals := [(''f'', 0)]\<rparr>"
              "''a.elf''" "''f''" 0 "''b.elf''" 0]
  by (auto simp: empty_graph_def local_lookup_def)

section \<open>The budget check on an unbounded result\<close>

text \<open>
  C1. A function with a pointer call is finalised as \<open>unbounded\<close>; the budget check
  then compares that string with the running maximum and raises TypeError: it neither
  reports the unbounded result nor reaches the comparison against the limit.
\<close>

theorem check_stack_size_unbounded_raises:
  "\<exists>cg. analyse 2 ptr_graph = Some (Inr cg)
        \<and> wcs (heap cg ! 0) = Some Unbounded
        \<and> check_stack_size cg 256 = Inl TypeError"
  by (simp add: analyse_def ptr_graph_def empty_graph_def fxn_node_def new_node_def
        resolve_all_calls_def all_fxns_def resolve_calls_def calc_all_wcs_def numeral_2_eq_2
        check_stack_size_def scan_step_def startswith_def gt_int_def)

section \<open>Stack pointer clobbering\<close>

text \<open>
  C2. A leaf function of 8 bytes with 4 clobbered bytes is finalised as 20, twice its
  own contribution plus the clobbered bytes, and not as 8 + 4 + 0.
\<close>

theorem clobber_doubles_value:
  "\<exists>cg. analyse 2 clobber_graph = Some (Inr cg)
        \<and> wcs (heap cg ! 0) = Some (Bounded 20)
        \<and> wcs (heap cg ! 0) \<noteq> Some (Bounded (8 + 4 + 0))"
  by (simp add: analyse_def clobber_graph_def empty_graph_def fxn_node_def new_node_def
        resolve_all_calls_def all_fxns_def resolve_calls_def calc_all_wcs_def numeral_2_eq_2
        finish_wcs_def)

section \<open>Proof rules for calc\_wcs\<close>

lemma calc_calls_rule:
  assumes run: "calc_calls rec g ps f m cs = Some (Inr h')"
    and init: "I pre g m"
    and step: "\<And>pre g m c g1 v u g2.
        I pre g m \<Longrightarrow> c \<in> set cs \<Longrightarrow> rec g (ps @ [f]) c = Some (Inr g1) \<Longrightarrow>
        wcs (g1 ! c) = Some (Bounded v) \<Longrightarrow> unresolved_calls (g1 ! c) = Some u \<Longrightarrow>
        propagate g1 f u = Inr g2 \<Longrightarrow> I (pre @ [c]) g2 (max m v)"
    and exit_unb: "\<And>pre g m c g1.
        I pre g m \<Longrightarrow> c \<in> set cs \<Longrightarrow> rec g (ps @ [f]) c = Some (Inr g1) \<Longrightarrow>
        wcs (g1 ! c) = Some Unbounded \<Longrightarrow> Q (set_unbounded g1 f)"
    and exit_fin: "\<And>g m. I (pre @ cs) g m \<Longrightarrow> Q (g[f := finish_wcs (g ! f) m])"
  shows "Q h'"
  using run init step exit_unb exit_fin
proof (induction cs arbitrary: g m pre)
  case Nil
  then show ?case by auto
next
  case (Cons c cs)
  from Cons.prems(1) obtain g1 where r: "rec g (ps @ [f]) c = Some (Inr g1)"
    by (auto split: option.splits sum.splits)
  show ?case
  proof (cases "wcs (g1 ! c)")
    case None
    with Cons.prems(1) r show ?thesis by simp
  next
    case (Some w)
    show ?thesis
    proof (cases w)
      case Unbounded
      with Some Cons.prems(1) r have "h' = set_unbounded g1 f"
        by (simp add: set_unbounded_def)
      moreover have "Q (set_unbounded g1 f)"
        using Cons.prems(4)[OF Cons.prems(2) _ r] Some Unbounded by simp
      ultimately show ?thesis by simp
    next
      case (Bounded v)
      with Some Cons.prems(1) r obtain u g2 where
        u: "unresolved_calls (g1 ! c) = Some u" and p: "propagate g1 f u = Inr g2"
        and rest: "calc_calls rec g2 ps f (max m v) cs = Some (Inr h')"
        by (auto split: option.splits sum.splits)
      have I2: "I (pre @ [c]) g2 (max m v)"
        using Cons.prems(3)[OF Cons.prems(2) _ r _ u p] Some Bounded by simp
      show ?thesis
      proof (rule Cons.IH[OF rest I2])
        fix pre g m c' g1 v u g2
        assume "I pre g m" "c' \<in> set cs" "rec g (ps @ [f]) c' = Some (Inr g1)"
          "wcs (g1 ! c') = Some (Bounded v)" "unresolved_calls (g1 ! c') = Some u"
          "propagate g1 f u = Inr g2"
        then show "I (pre @ [c']) g2 (max m v)"
          using Cons.prems(3)[of pre g m c' g1 v u g2] by simp
      next
        fix pre g m c' g1
        assume "I pre g m" "c' \<in> set cs" "rec g (ps @ [f]) c' = Some (Inr g1)"
          "wcs (g1 ! c') = Some Unbounded"
        then show "Q (set_unbounded g1 f)"
          using Cons.prems(4)[of pre g m c' g1] by simp
      next
        fix g m
        assume "I ((pre @ [c]) @ cs) g m"
        then show "Q (g[f := finish_wcs (g ! f) m])"
          using Cons.prems(5)[of g m] by simp
      qed
    qed
  qed
qed

lemma calc_wcs_rule:
  assumes run: "calc_wcs n h ps f = Some (Inr h')"
    and memo: "\<And>h ps f. wcs (h ! f) \<noteq> None \<Longrightarrow> P h ps f h"
    and ptr: "\<And>h ps f. wcs (h ! f) = None \<Longrightarrow> has_ptr_call (h ! f) = Some True \<Longrightarrow>
        P h ps f (set_unbounded h f)"
    and cut: "\<And>h ps f. wcs (h ! f) = None \<Longrightarrow> has_ptr_call (h ! f) \<noteq> Some True \<Longrightarrow>
        f \<in> set ps \<Longrightarrow> P h ps f (set_unbounded (dflt_ptr h f) f)"
    and init: "\<And>h ps f rs. wcs (h ! f) = None \<Longrightarrow> has_ptr_call (h ! f) \<noteq> Some True \<Longrightarrow>
        f \<notin> set ps \<Longrightarrow> r_calls (dflt_ptr h f ! f) = Some rs \<Longrightarrow> I h ps f rs [] (dflt_ptr h f) 0"
    and step: "\<And>h ps f rs pre g m c g1 v u g2 k.
        I h ps f rs pre g m \<Longrightarrow> c \<in> set rs \<Longrightarrow> calc_wcs k g (ps @ [f]) c = Some (Inr g1) \<Longrightarrow>
        P g (ps @ [f]) c g1 \<Longrightarrow>
        wcs (g1 ! c) = Some (Bounded v) \<Longrightarrow> unresolved_calls (g1 ! c) = Some u \<Longrightarrow>
        propagate g1 f u = Inr g2 \<Longrightarrow> I h ps f rs (pre @ [c]) g2 (max m v)"
    and exit_unb: "\<And>h ps f rs pre g m c g1 k.
        I h ps f rs pre g m \<Longrightarrow> c \<in> set rs \<Longrightarrow> calc_wcs k g (ps @ [f]) c = Some (Inr g1) \<Longrightarrow>
        P g (ps @ [f]) c g1 \<Longrightarrow>
        wcs (g1 ! c) = Some Unbounded \<Longrightarrow> P h ps f (set_unbounded g1 f)"
    and exit_fin: "\<And>h ps f rs g m. I h ps f rs rs g m \<Longrightarrow> P h ps f (g[f := finish_wcs (g ! f) m])"
  shows "P h ps f h'"
  using run
proof (induction n arbitrary: h ps f h')
  case 0
  then show ?case by simp
next
  case (Suc n)
  show ?case
  proof (cases "wcs (h ! f) \<noteq> None")
    case True
    with Suc.prems have "h' = h" by simp
    with memo[OF True] show ?thesis by simp
  next
    case False
    then have w: "wcs (h ! f) = None" by simp
    show ?thesis
    proof (cases "has_ptr_call (h ! f) = Some True")
      case True
      with w Suc.prems have "h' = set_unbounded h f"
        by (simp add: set_unbounded_def)
      with ptr[OF w True] show ?thesis by simp
    next
      case np: False
      then have np': "has_ptr_call (dflt_ptr h f ! f) \<noteq> Some True"
        by (cases "f < length h") (auto simp: dflt_ptr_def not_less list_update_beyond)
      show ?thesis
      proof (cases "f \<in> set ps")
        case True
        with w np' Suc.prems have "h' = set_unbounded (dflt_ptr h f) f"
          by (simp add: set_unbounded_def dflt_ptr_def Let_def)
        with cut[OF w np True] show ?thesis by simp
      next
        case nin: False
        with w np' Suc.prems obtain rs where
          rs: "r_calls (dflt_ptr h f ! f) = Some rs"
          and loop: "calc_calls (calc_wcs n) (dflt_ptr h f) ps f 0 rs = Some (Inr h')"
          by (auto simp: dflt_ptr_def Let_def split: option.splits if_splits)
        show ?thesis
        proof (rule calc_calls_rule[OF loop, where I = "I h ps f rs" and pre = "[]"])
          show "I h ps f rs [] (dflt_ptr h f) 0" by (rule init[OF w np nin rs])
        next
          fix pre g m c g1 v u g2
          assume "I h ps f rs pre g m" "c \<in> set rs" "calc_wcs n g (ps @ [f]) c = Some (Inr g1)"
            "wcs (g1 ! c) = Some (Bounded v)" "unresolved_calls (g1 ! c) = Some u"
            "propagate g1 f u = Inr g2"
          then show "I h ps f rs (pre @ [c]) g2 (max m v)"
            using step[of h ps f rs pre g m c n g1 v u g2] Suc.IH[of g "ps @ [f]" c g1] by simp
        next
          fix pre g m c g1
          assume "I h ps f rs pre g m" "c \<in> set rs" "calc_wcs n g (ps @ [f]) c = Some (Inr g1)"
            "wcs (g1 ! c) = Some Unbounded"
          then show "P h ps f (set_unbounded g1 f)"
            using exit_unb[of h ps f rs pre g m c n g1] Suc.IH[of g "ps @ [f]" c g1] by simp
        next
          fix g m
          assume "I h ps f rs ([] @ rs) g m"
          then show "P h ps f (g[f := finish_wcs (g ! f) m])"
            using exit_fin[of h ps f rs g m] by simp
        qed
      qed
    qed
  qed
qed

lemma keeps_refl: "keeps d d"
  by (simp add: keeps_def)

lemma keeps_trans: "keeps a b \<Longrightarrow> keeps b c \<Longrightarrow> keeps a c"
  unfolding keeps_def by (fastforce)

lemma evolves_refl: "evolves h h"
  by (simp add: evolves_def keeps_refl)

lemma evolves_trans: "evolves a b \<Longrightarrow> evolves b c \<Longrightarrow> evolves a c"
  unfolding evolves_def by (auto intro: keeps_trans)

lemma evolves_update:
  assumes "evolves h g" "wcs (h ! f) = None" "keeps (g ! f) d"
  shows "evolves h (g[f := d])"
proof -
  have "keeps (h ! n) (g[f := d] ! n) \<and> (wcs (h ! n) \<noteq> None \<longrightarrow> g[f := d] ! n = h ! n)"
    if "n < length h" for n
  proof (cases "n = f")
    case True
    with assms that show ?thesis
      by (auto simp: evolves_def intro: keeps_trans)
  next
    case False
    with assms that show ?thesis
      by (simp add: evolves_def)
  qed
  with assms(1) show ?thesis by (simp add: evolves_def)
qed

lemma keeps_ptr: "has_ptr_call d = None \<Longrightarrow> keeps d (d\<lparr>has_ptr_call := Some False\<rparr>)"
  by (simp add: keeps_def own_stack_def)

lemma keeps_unb: "keeps d (d\<lparr>wcs := Some Unbounded\<rparr>)"
  by (simp add: keeps_def own_stack_def)

lemma keeps_finish: "keeps d (finish_wcs d m)"
  by (simp add: keeps_def own_stack_def finish_wcs_def Let_def split: option.splits)

lemma keeps_unres: "unresolved_calls d = Some fu \<Longrightarrow> keeps d (d\<lparr>unresolved_calls := Some (fu \<union> u)\<rparr>)"
  by (simp add: keeps_def own_stack_def)

lemma evolves_dflt: "wcs (h ! f) = None \<Longrightarrow> evolves h g \<Longrightarrow> evolves h (dflt_ptr g f)"
  unfolding dflt_ptr_def by (auto intro: evolves_update keeps_ptr)

lemma evolves_unb: "wcs (h ! f) = None \<Longrightarrow> evolves h g \<Longrightarrow> evolves h (set_unbounded g f)"
  unfolding set_unbounded_def by (auto intro: evolves_update keeps_unb)

lemma evolves_finish: "wcs (h ! f) = None \<Longrightarrow> evolves h g \<Longrightarrow> evolves h (g[f := finish_wcs (g ! f) m])"
  by (auto intro: evolves_update keeps_finish)

lemma evolves_propagate:
  "wcs (h ! f) = None \<Longrightarrow> evolves h g \<Longrightarrow> propagate g f u = Inr g2 \<Longrightarrow> evolves h g2"
  unfolding propagate_def
  by (auto split: if_splits option.splits intro: evolves_update keeps_unres)

lemma calc_wcs_evolves:
  assumes "calc_wcs n h ps f = Some (Inr h')"
  shows "evolves h h'"
  by (rule calc_wcs_rule[OF assms, where P = "\<lambda>h ps f h'. evolves h h'"
        and I = "\<lambda>h ps f rs pre g m. evolves h g \<and> wcs (h ! f) = None"])
     (auto intro: evolves_refl evolves_unb evolves_dflt evolves_finish evolves_propagate
        evolves_trans)

lemma evolves_node_ok: "evolves h h' \<Longrightarrow> node_ok h f \<Longrightarrow> node_ok h' f"
  unfolding evolves_def node_ok_def keeps_def by fastforce

lemma evolves_length: "evolves h h' \<Longrightarrow> length h' = length h"
  by (simp add: evolves_def)

lemma evolves_r_calls: "evolves h h' \<Longrightarrow> n < length h \<Longrightarrow> r_calls (h' ! n) = r_calls (h ! n)"
  by (simp add: evolves_def keeps_def)

lemma evolves_linked: 
  assumes "evolves h h'" "linked h" shows "linked h'"
  unfolding linked_def
proof (intro allI impI ballI)
  fix n rs c assume "n < length h'" "r_calls (h' ! n) = Some rs" "c \<in> set rs"
  with assms have "node_ok h c"
    by (simp add: linked_def evolves_length evolves_r_calls)
  with assms(1) show "node_ok h' c" by (rule evolves_node_ok)
qed

lemma evolves_ctx: "evolves h h' \<Longrightarrow> ctx h ps f \<Longrightarrow> ctx h' ps f"
  by (auto simp: ctx_def intro: evolves_linked evolves_node_ok)

lemma ctx_callee:
  "ctx h ps f \<Longrightarrow> r_calls (h ! f) = Some rs \<Longrightarrow> c \<in> set rs \<Longrightarrow> ctx h (ps @ [f]) c"
  by (auto simp: ctx_def linked_def node_ok_def)

lemma dflt_ptr_r_calls: "r_calls (dflt_ptr h f ! n) = r_calls (h ! n)"
  by (cases "f < length h"; cases "n = f") (auto simp: dflt_ptr_def not_less list_update_beyond)

lemma dflt_ptr_wcs: "wcs (dflt_ptr h f ! n) = wcs (h ! n)"
  by (cases "f < length h"; cases "n = f") (auto simp: dflt_ptr_def not_less list_update_beyond)

lemma unresolved_update_same:
  "unresolved_calls d = Some y \<Longrightarrow> d\<lparr>unresolved_calls := Some y\<rparr> = d"
  by (cases d) auto

lemma propagate_eq:
  assumes "propagate g f u = Inr g2" "node_ok g f"
  shows "g2 = g[f := (g ! f)\<lparr>unresolved_calls := Some (the (unresolved_calls (g ! f)) \<union> u)\<rparr>]"
  using assms
  by (auto simp: propagate_def node_ok_def unresolved_update_same split: if_splits option.splits)

lemma calc_wcs_rule2:
  assumes run: "calc_wcs n h ps f = Some (Inr h')"
    and pre: "ctx h ps f"
    and memo: "\<And>h ps f. ctx h ps f \<Longrightarrow> wcs (h ! f) \<noteq> None \<Longrightarrow> P h ps f h"
    and ptr: "\<And>h ps f. ctx h ps f \<Longrightarrow> wcs (h ! f) = None \<Longrightarrow>
        has_ptr_call (h ! f) = Some True \<Longrightarrow> P h ps f (set_unbounded h f)"
    and cut: "\<And>h ps f. ctx h ps f \<Longrightarrow> wcs (h ! f) = None \<Longrightarrow>
        has_ptr_call (h ! f) \<noteq> Some True \<Longrightarrow> f \<in> set ps \<Longrightarrow>
        P h ps f (set_unbounded (dflt_ptr h f) f)"
    and init: "\<And>h ps f rs. ctx h ps f \<Longrightarrow> wcs (h ! f) = None \<Longrightarrow>
        has_ptr_call (h ! f) \<noteq> Some True \<Longrightarrow> f \<notin> set ps \<Longrightarrow> r_calls (h ! f) = Some rs \<Longrightarrow>
        I h ps f rs [] (dflt_ptr h f) 0"
    and step: "\<And>h ps f rs pre g m c g1 v u g2 k.
        ctx h ps f \<Longrightarrow> wcs (h ! f) = None \<Longrightarrow> has_ptr_call (h ! f) \<noteq> Some True \<Longrightarrow>
        f \<notin> set ps \<Longrightarrow> r_calls (h ! f) = Some rs \<Longrightarrow> evolves h g \<Longrightarrow>
        I h ps f rs pre g m \<Longrightarrow> c \<in> set rs \<Longrightarrow>
        calc_wcs k g (ps @ [f]) c = Some (Inr g1) \<Longrightarrow> ctx g (ps @ [f]) c \<Longrightarrow>
        P g (ps @ [f]) c g1 \<Longrightarrow>
        wcs (g1 ! c) = Some (Bounded v) \<Longrightarrow> unresolved_calls (g1 ! c) = Some u \<Longrightarrow>
        g2 = g1[f := (g1 ! f)\<lparr>unresolved_calls := Some (the (unresolved_calls (g1 ! f)) \<union> u)\<rparr>] \<Longrightarrow>
        I h ps f rs (pre @ [c]) g2 (max m v)"
    and exit_unb: "\<And>h ps f rs pre g m c g1 k.
        ctx h ps f \<Longrightarrow> wcs (h ! f) = None \<Longrightarrow> has_ptr_call (h ! f) \<noteq> Some True \<Longrightarrow>
        f \<notin> set ps \<Longrightarrow> r_calls (h ! f) = Some rs \<Longrightarrow> evolves h g \<Longrightarrow>
        I h ps f rs pre g m \<Longrightarrow> c \<in> set rs \<Longrightarrow>
        calc_wcs k g (ps @ [f]) c = Some (Inr g1) \<Longrightarrow> ctx g (ps @ [f]) c \<Longrightarrow>
        P g (ps @ [f]) c g1 \<Longrightarrow>
        wcs (g1 ! c) = Some Unbounded \<Longrightarrow> P h ps f (set_unbounded g1 f)"
    and exit_fin: "\<And>h ps f rs g m.
        ctx h ps f \<Longrightarrow> wcs (h ! f) = None \<Longrightarrow> has_ptr_call (h ! f) \<noteq> Some True \<Longrightarrow>
        f \<notin> set ps \<Longrightarrow> r_calls (h ! f) = Some rs \<Longrightarrow> evolves h g \<Longrightarrow>
        I h ps f rs rs g m \<Longrightarrow> P h ps f (g[f := finish_wcs (g ! f) m])"
  shows "P h ps f h'"
proof -
  let ?P = "\<lambda>h ps f h'. ctx h ps f \<longrightarrow> P h ps f h'"
  let ?I = "\<lambda>h ps f rs pre g m. ctx h ps f \<longrightarrow>
      (wcs (h ! f) = None \<and> has_ptr_call (h ! f) \<noteq> Some True \<and> f \<notin> set ps
       \<and> r_calls (h ! f) = Some rs \<and> evolves h g \<and> I h ps f rs pre g m)"
  have "?P h ps f h'"
  proof (rule calc_wcs_rule[OF run, where P = ?P and I = ?I], goal_cases)
    case (1 h ps f)
    then show ?case using memo by blast
  next
    case (2 h ps f)
    then show ?case using ptr by blast
  next
    case (3 h ps f)
    then show ?case using cut by blast
  next
    case (4 h ps f rs)
    then show ?case
      using init[of h ps f rs] by (auto simp: dflt_ptr_r_calls intro: evolves_dflt evolves_refl)
  next
    case (5 h ps f rs pre g m c g1 v u g2 k)
    show ?case
    proof
      assume c: "ctx h ps f"
      with 5(1) have a: "wcs (h ! f) = None" "has_ptr_call (h ! f) \<noteq> Some True" "f \<notin> set ps"
        "r_calls (h ! f) = Some rs" "evolves h g" "I h ps f rs pre g m" by auto
      have cg: "ctx g (ps @ [f]) c"
        using evolves_ctx[OF a(5) ctx_callee[OF c a(4) 5(2)]] .
      have e1: "evolves g g1" using 5(3) by (rule calc_wcs_evolves)
      have P1: "P g (ps @ [f]) c g1" using 5(4) cg by simp
      have nf: "node_ok g1 f" using evolves_ctx[OF e1 cg] by (simp add: ctx_def)
      have g2: "g2 = g1[f := (g1 ! f)\<lparr>unresolved_calls := Some (the (unresolved_calls (g1 ! f)) \<union> u)\<rparr>]"
        using propagate_eq[OF 5(7) nf] .
      have e2: "evolves h g2"
        using evolves_propagate[OF a(1) evolves_trans[OF a(5) e1] 5(7)] .
      show "wcs (h ! f) = None \<and> has_ptr_call (h ! f) \<noteq> Some True \<and> f \<notin> set ps
       \<and> r_calls (h ! f) = Some rs \<and> evolves h g2 \<and> I h ps f rs (pre @ [c]) g2 (max m v)"
        using a e2 step[OF c a(1,2,3,4,5,6) 5(2,3) cg P1 5(5,6) g2] by simp
    qed
  next
    case (6 h ps f rs pre g m c g1 k)
    show ?case
    proof
      assume c: "ctx h ps f"
      with 6(1) have a: "wcs (h ! f) = None" "has_ptr_call (h ! f) \<noteq> Some True" "f \<notin> set ps"
        "r_calls (h ! f) = Some rs" "evolves h g" "I h ps f rs pre g m" by auto
      have cg: "ctx g (ps @ [f]) c"
        using evolves_ctx[OF a(5) ctx_callee[OF c a(4) 6(2)]] .
      have P1: "P g (ps @ [f]) c g1" using 6(4) cg by simp
      show "P h ps f (set_unbounded g1 f)"
        using exit_unb[OF c a(1,2,3,4,5,6) 6(2,3) cg P1 6(5)] .
    qed
  next
    case (7 h ps f rs g m)
    then show ?case using exit_fin[of h ps f rs g m] by blast
  qed
  with pre show ?thesis by simp
qed

lemma length_set_unbounded [simp]: "length (set_unbounded h f) = length h"
  by (simp add: set_unbounded_def)

lemma length_dflt_ptr [simp]: "length (dflt_ptr h f) = length h"
  by (simp add: dflt_ptr_def)

lemma set_unbounded_nth:
  "f < length h \<Longrightarrow> set_unbounded h f ! n = (if n = f then (h ! f)\<lparr>wcs := Some Unbounded\<rparr> else h ! n)"
  by (simp add: set_unbounded_def)

lemma dflt_ptr_nth_neq: "n \<noteq> f \<Longrightarrow> dflt_ptr h f ! n = h ! n"
  by (simp add: dflt_ptr_def)

lemma set_unbounded_nth_neq: "n \<noteq> f \<Longrightarrow> set_unbounded h f ! n = h ! n"
  by (simp add: set_unbounded_def)

lemma cut_nth:
  "f < length h \<Longrightarrow> set_unbounded (dflt_ptr h f) f ! f = cut_node (h ! f)"
  by (simp add: set_unbounded_def dflt_ptr_def cut_node_def)

lemma ptr_nth:
  "f < length h \<Longrightarrow> has_ptr_call (h ! f) = Some True \<Longrightarrow> set_unbounded h f ! f = cut_node (h ! f)"
  by (simp add: set_unbounded_def cut_node_def)

lemma wcs_finish: "wcs (finish_wcs d m) \<noteq> None"
  by (simp add: finish_wcs_def Let_def split: option.splits)

lemma ctx_lt: "ctx h ps f \<Longrightarrow> f < length h"
  by (simp add: ctx_def node_ok_def)

lemma calc_wcs_sets_wcs:
  assumes "calc_wcs n h ps f = Some (Inr h')" "ctx h ps f"
  shows "wcs (h' ! f) \<noteq> None"
proof (rule calc_wcs_rule2[OF assms, where P = "\<lambda>h ps f h'. wcs (h' ! f) \<noteq> None"
      and I = "\<lambda>h ps f rs pre g m. True"], goal_cases)
  case (6 h ps f rs pre g m c g1 k)
  have "f < length g1"
    using ctx_lt[OF 6(1)] evolves_length[OF 6(6)] evolves_length[OF calc_wcs_evolves[OF 6(9)]]
    by simp
  then show ?case by (simp add: set_unbounded_nth)
next
  case (7 h ps f rs g m)
  have "f < length g" using ctx_lt[OF 7(1)] evolves_length[OF 7(6)] by simp
  then show ?case by (simp add: wcs_finish)
qed (auto simp: set_unbounded_nth dest: ctx_lt)

lemma nth_update_parent: "f \<notin> set ps \<Longrightarrow> p \<in> set ps \<Longrightarrow> g[f := x] ! p = g ! p"
  by (cases "p = f") simp_all

lemma calc_wcs_parents:
  assumes "calc_wcs n h ps f = Some (Inr h')" "ctx h ps f"
  shows "\<forall>p\<in>set ps. h' ! p = h ! p \<or> (wcs (h ! p) = None \<and> h' ! p = cut_node (h ! p))"
proof (rule calc_wcs_rule2[OF assms,
      where P = "\<lambda>h ps f h'. \<forall>p\<in>set ps. h' ! p = h ! p \<or> (wcs (h ! p) = None \<and> h' ! p = cut_node (h ! p))"
      and I = "\<lambda>h ps f rs pre g m. \<forall>p\<in>set ps. g ! p = h ! p \<or> (wcs (h ! p) = None \<and> g ! p = cut_node (h ! p))"],
    goal_cases)
  case (1 h ps f)
  then show ?case by simp
next
  case (2 h ps f)
  have "set_unbounded h f ! p = h ! p \<or> (wcs (h ! p) = None \<and> set_unbounded h f ! p = cut_node (h ! p))" for p
    using 2 ptr_nth[of f h] ctx_lt[OF 2(1)]
    by (cases "p = f") (auto simp: set_unbounded_nth_neq)
  then show ?case by simp
next
  case (3 h ps f)
  have "set_unbounded (dflt_ptr h f) f ! p = h ! p
        \<or> (wcs (h ! p) = None \<and> set_unbounded (dflt_ptr h f) f ! p = cut_node (h ! p))" for p
    using 3 cut_nth[of f h] ctx_lt[OF 3(1)]
    by (cases "p = f") (auto simp: set_unbounded_nth_neq dflt_ptr_nth_neq)
  then show ?case by simp
next
  case (4 h ps f rs)
  have "dflt_ptr h f ! p = h ! p" if "p \<in> set ps" for p
    using that 4(4) by (intro dflt_ptr_nth_neq) auto
  then show ?case by simp
next
  case (5 h ps f rs pre g m c g1 v u g2 k)
  show ?case
  proof
    fix p assume p: "p \<in> set ps"
    with 5(4) have pf: "p \<noteq> f" by auto
    from p 5(11) have s: "g1 ! p = g ! p \<or> (wcs (g ! p) = None \<and> g1 ! p = cut_node (g ! p))"
      by simp
    from p 5(7) have i: "g ! p = h ! p \<or> (wcs (h ! p) = None \<and> g ! p = cut_node (h ! p))"
      by simp
    have "g2 ! p = g1 ! p" using pf 5(14) by simp
    with s i show "g2 ! p = h ! p \<or> (wcs (h ! p) = None \<and> g2 ! p = cut_node (h ! p))"
      by (auto simp: cut_node_def)
  qed
next
  case (6 h ps f rs pre g m c g1 k)
  show ?case
  proof
    fix p assume p: "p \<in> set ps"
    with 6(4) have pf: "p \<noteq> f" by auto
    from p 6(11) have s: "g1 ! p = g ! p \<or> (wcs (g ! p) = None \<and> g1 ! p = cut_node (g ! p))"
      by simp
    from p 6(7) have i: "g ! p = h ! p \<or> (wcs (h ! p) = None \<and> g ! p = cut_node (h ! p))"
      by simp
    have "set_unbounded g1 f ! p = g1 ! p" using pf by (simp add: set_unbounded_nth_neq)
    with s i show "set_unbounded g1 f ! p = h ! p \<or> (wcs (h ! p) = None \<and> set_unbounded g1 f ! p = cut_node (h ! p))"
      by (auto simp: cut_node_def)
  qed
next
  case (7 h ps f rs g m)
  then show ?case by (simp add: nth_update_parent)
qed

lemma calc_wcs_quiet:
  assumes "calc_wcs n h ps f = Some (Inr h')" "ctx h ps f"
  shows "(\<exists>p\<in>set ps. wcs (h ! p) = None \<and> wcs (h' ! p) \<noteq> None) \<longrightarrow> wcs (h' ! f) = Some Unbounded"
proof (rule calc_wcs_rule2[OF assms,
      where P = "\<lambda>h ps f h'. (\<exists>p\<in>set ps. wcs (h ! p) = None \<and> wcs (h' ! p) \<noteq> None) \<longrightarrow> wcs (h' ! f) = Some Unbounded"
      and I = "\<lambda>h ps f rs pre g m. \<forall>p\<in>set (ps @ [f]). wcs (h ! p) = None \<longrightarrow> wcs (g ! p) = None"],
    goal_cases)
  case (1 h ps f)
  then show ?case by auto
next
  case (2 h ps f)
  then show ?case by (auto simp: set_unbounded_nth dest: ctx_lt)
next
  case (3 h ps f)
  then show ?case by (auto simp: set_unbounded_nth dest: ctx_lt)
next
  case (4 h ps f rs)
  then show ?case by (simp add: dflt_ptr_wcs)
next
  case (5 h ps f rs pre g m c g1 v u g2 k)
  from 5(11,12) have q: "\<forall>p\<in>set (ps @ [f]). wcs (g ! p) = None \<longrightarrow> wcs (g1 ! p) = None"
    by auto
  have "wcs (g2 ! p) = wcs (g1 ! p)" for p
    using 5(14) by (cases "f < length g1"; cases "p = f") (auto simp: not_less list_update_beyond)
  with q 5(7) show ?case by simp
next
  case (6 h ps f rs pre g m c g1 k)
  have "f < length g1"
    using ctx_lt[OF 6(1)] evolves_length[OF 6(6)] evolves_length[OF calc_wcs_evolves[OF 6(9)]]
    by simp
  then show ?case by (simp add: set_unbounded_nth)
next
  case (7 h ps f rs g m)
  have "wcs (g[f := finish_wcs (g ! f) m] ! p) = None" if "p \<in> set ps" "wcs (h ! p) = None" for p
  proof -
    from that 7(4) have "p \<noteq> f" by auto
    with that 7(7) show ?thesis by simp
  qed
  then show ?case by auto
qed

lemma calc_wcs_bounded_keeps_parents:
  assumes "calc_wcs n h ps f = Some (Inr h')" "ctx h ps f" "wcs (h' ! f) = Some (Bounded v)"
    "p \<in> set ps"
  shows "h' ! p = h ! p"
proof -
  from calc_wcs_parents[OF assms(1,2)] assms(4)
  have "h' ! p = h ! p \<or> (wcs (h ! p) = None \<and> h' ! p = cut_node (h ! p))" by simp
  moreover have "\<not> (wcs (h ! p) = None \<and> wcs (h' ! p) \<noteq> None)"
    using calc_wcs_quiet[OF assms(1,2)] assms(3,4) by auto
  ultimately show ?thesis by (auto simp: cut_node_def)
qed

lemma propagate_total:
  "node_ok g f \<Longrightarrow> \<exists>g2. propagate g f u = Inr g2"
  by (auto simp: propagate_def node_ok_def)

lemma calc_calls_total:
  assumes rec: "\<And>g c. ctx g (ps @ [f]) c \<Longrightarrow> length g = length h0 \<Longrightarrow>
      \<exists>g1. rec g (ps @ [f]) c = Some (Inr g1) \<and> evolves g g1 \<and> wcs (g1 ! c) \<noteq> None"
    and cs: "\<forall>c\<in>set cs. ctx h0 (ps @ [f]) c"
    and fresh: "wcs (h0 ! f) = None"
    and ev: "evolves h0 g"
  shows "\<exists>h'. calc_calls rec g ps f m cs = Some (Inr h')"
  using cs ev
proof (induction cs arbitrary: g m)
  case Nil
  then show ?case by simp
next
  case (Cons c cs)
  have c0: "ctx h0 (ps @ [f]) c" using Cons.prems(1) by simp
  have cg: "ctx g (ps @ [f]) c" using evolves_ctx[OF Cons.prems(2) c0] .
  from rec[OF cg evolves_length[OF Cons.prems(2)]] obtain g1 where
    r: "rec g (ps @ [f]) c = Some (Inr g1)" and e1: "evolves g g1" and w: "wcs (g1 ! c) \<noteq> None"
    by blast
  from w obtain wv where wv: "wcs (g1 ! c) = Some wv" by auto
  have cg1: "ctx g1 (ps @ [f]) c" using evolves_ctx[OF e1 cg] .
  show ?case
  proof (cases wv)
    case Unbounded
    with r wv show ?thesis by simp
  next
    case (Bounded v)
    from cg1 obtain u where u: "unresolved_calls (g1 ! c) = Some u"
      by (auto simp: ctx_def node_ok_def)
    from cg1 have "node_ok g1 f" by (simp add: ctx_def)
    from propagate_total[OF this] obtain g2 where p: "propagate g1 f u = Inr g2" by blast
    have e2: "evolves h0 g2"
      using evolves_propagate[OF fresh evolves_trans[OF Cons.prems(2) e1] p] .
    from Cons.IH[OF _ e2, of "max m v"] Cons.prems(1)
    obtain h' where "calc_calls rec g2 ps f (max m v) cs = Some (Inr h')" by auto
    with r wv Bounded u p show ?thesis by simp
  qed
qed

lemma distinct_in_range:
  assumes "distinct ps" "\<forall>p\<in>set ps. p < n"
  shows "length ps \<le> n"
proof -
  have "card (set ps) \<le> card {..<n}"
    using assms(2) by (intro card_mono) auto
  with assms(1) show ?thesis by (simp add: distinct_card)
qed

lemma calc_wcs_total:
  assumes "ctx h ps f" "distinct ps" "length h < n + length ps"
  shows "\<exists>h'. calc_wcs n h ps f = Some (Inr h')"
  using assms
proof (induction n arbitrary: h ps f)
  case 0
  have "length ps \<le> length h"
    using 0(1,2) by (intro distinct_in_range) (auto simp: ctx_def node_ok_def)
  with 0(3) show ?case by simp
next
  case (Suc n)
  show ?case
  proof (cases "wcs (h ! f) \<noteq> None \<or> has_ptr_call (h ! f) = Some True \<or> f \<in> set ps")
    case True
    then show ?thesis
      by (cases "f < length h") (auto simp: Let_def not_less list_update_beyond)
  next
    case False
    then have w: "wcs (h ! f) = None" and np: "has_ptr_call (h ! f) \<noteq> Some True"
      and nin: "f \<notin> set ps" by auto
    from Suc.prems(1) obtain rs where rs: "r_calls (h ! f) = Some rs"
      by (auto simp: ctx_def node_ok_def)
    have np': "has_ptr_call (dflt_ptr h f ! f) \<noteq> Some True"
      using np by (cases "f < length h") (auto simp: dflt_ptr_def not_less list_update_beyond)
    have eq: "calc_wcs (Suc n) h ps f = calc_calls (calc_wcs n) (dflt_ptr h f) ps f 0 rs"
      using w np' nin rs dflt_ptr_r_calls[of h f f]
      by (simp add: dflt_ptr_def Let_def)
    have "\<exists>h'. calc_calls (calc_wcs n) (dflt_ptr h f) ps f 0 rs = Some (Inr h')"
    proof (rule calc_calls_total[where ?h0.0 = h])
      fix g c assume cg: "ctx g (ps @ [f]) c" and len: "length g = length h"
      have "\<exists>g1. calc_wcs n g (ps @ [f]) c = Some (Inr g1)"
        using Suc.IH[OF cg] Suc.prems(2,3) nin len by simp
      then obtain g1 where r: "calc_wcs n g (ps @ [f]) c = Some (Inr g1)" by blast
      with calc_wcs_evolves[OF r] calc_wcs_sets_wcs[OF r cg]
      show "\<exists>g1. calc_wcs n g (ps @ [f]) c = Some (Inr g1) \<and> evolves g g1 \<and> wcs (g1 ! c) \<noteq> None"
        by simp
    next
      show "\<forall>c\<in>set rs. ctx h (ps @ [f]) c"
        using ctx_callee[OF Suc.prems(1) rs] by simp
    next
      show "wcs (h ! f) = None" by (rule w)
    next
      show "evolves h (dflt_ptr h f)" using evolves_dflt[OF w evolves_refl] .
    qed
    with eq show ?thesis by simp
  qed
qed

lemma is_bounded_simps [simp]:
  "wcs d = None \<Longrightarrow> \<not> is_bounded d"
  "wcs d = Some Unbounded \<Longrightarrow> \<not> is_bounded d"
  "wcs d = Some (Bounded v) \<Longrightarrow> is_bounded d"
  by (simp_all add: is_bounded_def)

lemma is_boundedE: "is_bounded d \<Longrightarrow> \<exists>v. wcs d = Some (Bounded v)"
  by (auto simp: is_bounded_def split: option.splits wcs_value.splits)

lemma is_bounded_finish [simp]: "is_bounded (finish_wcs d m)"
  by (simp add: finish_wcs_def is_bounded_def Let_def split: option.splits)

lemma not_bounded_cut [simp]: "\<not> is_bounded (cut_node d)"
  by (simp add: cut_node_def is_bounded_def)

lemma nth_update_if: "n < length h \<Longrightarrow> h[f := d] ! n = (if n = f then d else h ! n)"
  by (cases "n = f") simp_all

lemma call_edges_update:
  assumes "r_calls d = r_calls (h ! f)"
  shows "call_edges (h[f := d]) = call_edges h"
proof -
  have "r_calls (h[f := d] ! n) = r_calls (h ! n)" if "n < length h" for n
    using that assms by (simp add: nth_update_if)
  then show ?thesis by (auto simp: call_edges_def)
qed

lemma call_edges_evolves: "evolves h h' \<Longrightarrow> call_edges h' = call_edges h"
  unfolding call_edges_def evolves_def keeps_def by auto

lemma has_ptr_evolves:
  "evolves h h' \<Longrightarrow> n < length h \<Longrightarrow>
   (has_ptr_call (h' ! n) = Some True) = (has_ptr_call (h ! n) = Some True)"
  by (simp add: evolves_def keeps_def)

lemma no_ptr_bounded_update:
  assumes "no_ptr_bounded h x"
    and "x = f \<Longrightarrow> f < length h \<Longrightarrow> is_bounded d \<Longrightarrow> has_ptr_call d \<noteq> Some True"
  shows "no_ptr_bounded (h[f := d]) x"
proof (cases "x = f \<and> f < length h")
  case True
  with assms(2) show ?thesis by (auto simp: no_ptr_bounded_def)
next
  case False
  then have "h[f := d] ! x = h ! x"
    by (cases "x = f") (simp_all add: not_less list_update_beyond)
  with assms(1) show ?thesis by (simp add: no_ptr_bounded_def)
qed

lemma is_bounded_unres [simp]: "is_bounded (d\<lparr>unresolved_calls := x\<rparr>) = is_bounded d"
  by (simp add: is_bounded_def)

lemma is_bounded_ptr [simp]: "is_bounded (d\<lparr>has_ptr_call := x\<rparr>) = is_bounded d"
  by (simp add: is_bounded_def)

lemma not_bounded_unb [simp]: "\<not> is_bounded (d\<lparr>wcs := Some Unbounded\<rparr>)"
  by (simp add: is_bounded_def)

lemma npb_dflt: "no_ptr_bounded h x \<Longrightarrow> no_ptr_bounded (dflt_ptr h f) x"
  unfolding dflt_ptr_def by (cases "has_ptr_call (h ! f) = None") (simp_all add: no_ptr_bounded_update)

lemma npb_unb: "no_ptr_bounded h x \<Longrightarrow> no_ptr_bounded (set_unbounded h f) x"
  unfolding set_unbounded_def by (rule no_ptr_bounded_update) simp_all

lemma npb_unres:
  assumes "no_ptr_bounded h x"
  shows "no_ptr_bounded (h[f := (h ! f)\<lparr>unresolved_calls := u\<rparr>]) x"
proof (rule no_ptr_bounded_update[OF assms])
  assume "x = f" "f < length h" "is_bounded ((h ! f)\<lparr>unresolved_calls := u\<rparr>)"
  with assms show "has_ptr_call ((h ! f)\<lparr>unresolved_calls := u\<rparr>) \<noteq> Some True"
    by (auto simp: no_ptr_bounded_def)
qed

lemma calc_wcs_no_ptr_bounded:
  assumes "calc_wcs n h ps f = Some (Inr h')" "ctx h ps f" "no_ptr_bounded h x"
  shows "no_ptr_bounded h' x"
proof -
  have "no_ptr_bounded h x \<longrightarrow> no_ptr_bounded h' x"
  proof (rule calc_wcs_rule2[OF assms(1,2),
        where P = "\<lambda>h ps f h'. no_ptr_bounded h x \<longrightarrow> no_ptr_bounded h' x"
        and I = "\<lambda>h ps f rs pre g m. no_ptr_bounded h x \<longrightarrow> no_ptr_bounded g x"], goal_cases)
    case (1 h ps f)
    show ?case by simp
  next
    case (2 h ps f)
    show ?case by (simp add: npb_unb)
  next
    case (3 h ps f)
    show ?case by (simp add: npb_unb npb_dflt)
  next
    case (4 h ps f rs)
    show ?case by (simp add: npb_dflt)
  next
    case (5 h ps f rs pre g m c g1 v u g2 k)
    from 5(7,11) show ?case unfolding 5(14) by (simp add: npb_unres)
  next
    case (6 h ps f rs pre g m c g1 k)
    from 6(7,11) show ?case by (simp add: npb_unb)
  next
    case (7 h ps f rs g m)
    have "has_ptr_call (finish_wcs (g ! f) m) \<noteq> Some True"
      using has_ptr_evolves[OF 7(6) ctx_lt[OF 7(1)]] 7(3) keeps_finish[of "g ! f" m]
      by (simp add: keeps_def)
    with 7(7) show ?case by (auto intro: no_ptr_bounded_update)
  qed
  with assms(3) show ?thesis by simp
qed

lemma call_edges_lt: "linked h \<Longrightarrow> (a, b) \<in> call_edges h \<Longrightarrow> a < length h \<and> b < length h"
  by (auto simp: call_edges_def linked_def node_ok_def)

lemma closed_reach:
  assumes "(c, x) \<in> (call_edges h)\<^sup>*" "is_bounded (h ! c)" "c < length h" "bounded_closed h" "linked h"
  shows "is_bounded (h ! x) \<and> x < length h"
  using assms(1)
proof (induction rule: rtrancl_induct)
  case base
  show ?case using assms(2,3) by simp
next
  case (step y z)
  from step(3) have y: "is_bounded (h ! y)" "y < length h" by simp_all
  have z: "z < length h" using call_edges_lt[OF assms(5) step(2)] by simp
  have "is_bounded (h ! z)"
    using assms(4) y step(2) unfolding bounded_closed_def by blast
  with z show ?case by simp
qed

lemma bounded_closed_keep:
  assumes "bounded_closed h" "\<not> is_bounded (h ! f)" "\<not> is_bounded d" "r_calls d = r_calls (h ! f)"
  shows "bounded_closed (h[f := d])"
proof -
  have E: "call_edges (h[f := d]) = call_edges h" using assms(4) by (rule call_edges_update)
  have eq: "is_bounded (h[f := d] ! n) = is_bounded (h ! n)" for n
    using assms(2,3) by (cases "f < length h"; cases "n = f") (simp_all add: not_less list_update_beyond)
  show ?thesis
    using assms(1) unfolding bounded_closed_def E eq by simp
qed

lemma bounded_closed_add:
  assumes bc: "bounded_closed h" and nb: "\<not> is_bounded (h ! f)" and lt: "f < length h"
    and lk: "linked h"
    and rs: "r_calls (h ! f) = Some rs" and all: "\<forall>c\<in>set rs. is_bounded (h ! c)"
    and d: "r_calls d = r_calls (h ! f)"
  shows "bounded_closed (h[f := d])"
proof -
  have E: "call_edges (h[f := d]) = call_edges h" using d by (rule call_edges_update)
  have bn: "is_bounded (h ! n) \<Longrightarrow> is_bounded (h[f := d] ! n)" for n
    using nb by (cases "n = f") auto
  have nf: "(f, f) \<notin> (call_edges h)\<^sup>+"
  proof
    assume "(f, f) \<in> (call_edges h)\<^sup>+"
    then obtain c where fc: "(f, c) \<in> call_edges h" and cf: "(c, f) \<in> (call_edges h)\<^sup>*"
      by (meson tranclD)
    from fc rs have cin: "c \<in> set rs" by (auto simp: call_edges_def)
    with all have cb: "is_bounded (h ! c)" by simp
    from cin rs lt lk have "c < length h" by (auto simp: linked_def node_ok_def)
    from closed_reach[OF cf cb this bc lk] nb show False by simp
  qed
  show ?thesis
    unfolding bounded_closed_def E
  proof (intro allI impI)
    fix n assume n: "n < length (h[f := d])" and b: "is_bounded (h[f := d] ! n)"
    show "(\<forall>c. (n, c) \<in> call_edges h \<longrightarrow> is_bounded (h[f := d] ! c)) \<and> (n, n) \<notin> (call_edges h)\<^sup>+"
    proof (cases "n = f")
      case True
      with rs all nf bn show ?thesis by (auto simp: call_edges_def)
    next
      case False
      with b have "is_bounded (h ! n)" by simp
      with bc n bn show ?thesis by (auto simp: bounded_closed_def)
    qed
  qed
qed

lemma evolves_bounded_same:
  "evolves g g1 \<Longrightarrow> n < length g \<Longrightarrow> is_bounded (g ! n) \<Longrightarrow> g1 ! n = g ! n"
  by (auto simp: evolves_def dest: is_boundedE)

lemma r_calls_finish [simp]: "r_calls (finish_wcs d m) = r_calls d"
  using keeps_finish[of d m] by (simp add: keeps_def)

lemma bc_dflt:
  "bounded_closed h \<Longrightarrow> wcs (h ! f) = None \<Longrightarrow> bounded_closed (dflt_ptr h f)"
  unfolding dflt_ptr_def
  by (cases "has_ptr_call (h ! f) = None") (simp_all add: bounded_closed_keep)

lemma bc_unb:
  "bounded_closed h \<Longrightarrow> \<not> is_bounded (h ! f) \<Longrightarrow> bounded_closed (set_unbounded h f)"
  unfolding set_unbounded_def by (rule bounded_closed_keep) simp_all

lemma ctx_callee_lt:
  "ctx h ps f \<Longrightarrow> r_calls (h ! f) = Some rs \<Longrightarrow> c \<in> set rs \<Longrightarrow> c < length h"
  by (auto simp: ctx_def linked_def node_ok_def)

lemma calc_wcs_bounded_closed:
  assumes "calc_wcs n h ps f = Some (Inr h')" "ctx h ps f" "bounded_closed h"
  shows "bounded_closed h'"
proof -
  have "bounded_closed h \<longrightarrow> bounded_closed h'"
  proof (rule calc_wcs_rule2[OF assms(1,2),
        where P = "\<lambda>h ps f h'. bounded_closed h \<longrightarrow> bounded_closed h'"
        and I = "\<lambda>h ps f rs pre g m. bounded_closed h \<longrightarrow>
            (bounded_closed g \<and> \<not> is_bounded (g ! f) \<and> set pre \<subseteq> set rs
             \<and> (\<forall>c\<in>set pre. is_bounded (g ! c)))"], goal_cases)
    case (1 h ps f)
    show ?case by simp
  next
    case (2 h ps f)
    then show ?case by (simp add: bc_unb)
  next
    case (3 h ps f)
    then show ?case by (simp add: bc_unb bc_dflt dflt_ptr_wcs)
  next
    case (4 h ps f rs)
    then show ?case by (simp add: bc_dflt dflt_ptr_wcs)
  next
    case (5 h ps f rs pre g m c g1 v u g2 k)
    show ?case
    proof
      assume bh: "bounded_closed h"
      with 5(7) have bg: "bounded_closed g" and nf: "\<not> is_bounded (g ! f)"
        and sub: "set pre \<subseteq> set rs" and pb: "\<forall>c\<in>set pre. is_bounded (g ! c)" by auto
      from 5(11) bg have b1: "bounded_closed g1" by simp
      have e1: "evolves g g1" using 5(9) by (rule calc_wcs_evolves)
      have f1: "g1 ! f = g ! f"
        using calc_wcs_bounded_keeps_parents[OF 5(9,10,12), of f] by simp
      with nf have nf1: "\<not> is_bounded (g1 ! f)" by simp
      have lf: "f < length g1"
        using ctx_lt[OF 5(1)] evolves_length[OF 5(6)] evolves_length[OF e1] by simp
      have b2: "bounded_closed g2"
        unfolding 5(14) by (rule bounded_closed_keep[OF b1 nf1]) (simp_all add: nf1)
      have nf2: "\<not> is_bounded (g2 ! f)"
        unfolding 5(14) using lf nf1 by simp
      have pb2: "is_bounded (g2 ! c')" if "c' \<in> set (pre @ [c])" for c'
      proof -
        have "is_bounded (g1 ! c')"
        proof (cases "c' = c")
          case True
          with 5(12) show ?thesis by simp
        next
          case False
          with that have in_pre: "c' \<in> set pre" by simp
          with sub have "c' \<in> set rs" by auto
          then have "c' < length g"
            using ctx_callee_lt[OF 5(1,5)] evolves_length[OF 5(6)] by simp
          with evolves_bounded_same[OF e1] pb in_pre show ?thesis by simp
        qed
        moreover from this nf1 have "c' \<noteq> f" by auto
        ultimately show ?thesis unfolding 5(14) by simp
      qed
      from b2 nf2 sub 5(8) pb2
      show "bounded_closed g2 \<and> \<not> is_bounded (g2 ! f) \<and> set (pre @ [c]) \<subseteq> set rs
             \<and> (\<forall>c\<in>set (pre @ [c]). is_bounded (g2 ! c))"
        by simp
    qed
  next
    case (6 h ps f rs pre g m c g1 k)
    show ?case
    proof
      assume bh: "bounded_closed h"
      with 6(7) have bg: "bounded_closed g" and nf: "\<not> is_bounded (g ! f)" by auto
      from 6(11) bg have b1: "bounded_closed g1" by simp
      have "g1 ! f = g ! f \<or> (wcs (g ! f) = None \<and> g1 ! f = cut_node (g ! f))"
        using calc_wcs_parents[OF 6(9,10)] by simp
      with nf have "\<not> is_bounded (g1 ! f)" by auto
      with b1 show "bounded_closed (set_unbounded g1 f)" by (rule bc_unb)
    qed
  next
    case (7 h ps f rs g m)
    show ?case
    proof
      assume bh: "bounded_closed h"
      with 7(7) have bg: "bounded_closed g" and nf: "\<not> is_bounded (g ! f)"
        and pb: "\<forall>c\<in>set rs. is_bounded (g ! c)" by auto
      have lf: "f < length g" using ctx_lt[OF 7(1)] evolves_length[OF 7(6)] by simp
      have lk: "linked g" using evolves_linked[OF 7(6)] 7(1) by (simp add: ctx_def)
      have rs: "r_calls (g ! f) = Some rs"
        using evolves_r_calls[OF 7(6) ctx_lt[OF 7(1)]] 7(5) by simp
      show "bounded_closed (g[f := finish_wcs (g ! f) m])"
        using bg nf lf lk rs pb by (rule bounded_closed_add) simp
    qed
  qed
  with assms(3) show ?thesis by simp
qed

lemma justified_mono: "justified h ps \<Longrightarrow> set ps \<subseteq> set ps' \<Longrightarrow> justified h ps'"
  unfolding justified_def by blast

lemma justified_same:
  assumes j: "justified h ps" and w: "wcs d = wcs (h ! f)" and r: "r_calls d = r_calls (h ! f)"
    and p: "(has_ptr_call d = Some True) = (has_ptr_call (h ! f) = Some True)"
  shows "justified (h[f := d]) ps"
proof -
  have E: "call_edges (h[f := d]) = call_edges h" using r by (rule call_edges_update)
  have W: "wcs (h[f := d] ! n) = wcs (h ! n)" for n
    using w by (cases "f < length h"; cases "n = f") (simp_all add: not_less list_update_beyond)
  have P: "(has_ptr_call (h[f := d] ! n) = Some True) = (has_ptr_call (h ! n) = Some True)" for n
    using p by (cases "f < length h"; cases "n = f") (simp_all add: not_less list_update_beyond)
  show ?thesis using j unfolding justified_def E W P by simp
qed

lemma set_unbounded_wcs:
  "wcs (set_unbounded h f ! n) = (if n = f \<and> f < length h then Some Unbounded else wcs (h ! n))"
  by (cases "f < length h"; cases "n = f") (simp_all add: set_unbounded_def not_less list_update_beyond)

lemma set_unbounded_ptr: "has_ptr_call (set_unbounded h f ! n) = has_ptr_call (h ! n)"
  by (cases "f < length h"; cases "n = f") (simp_all add: set_unbounded_def not_less list_update_beyond)

lemma set_unbounded_edges: "call_edges (set_unbounded h f) = call_edges h"
  unfolding set_unbounded_def by (rule call_edges_update) simp

lemma justified_unb:
  assumes j: "justified h ps" and c: "has_ptr_call (h ! f) = Some True \<or> f \<in> set ps"
  shows "justified (set_unbounded h f) ps"
  unfolding justified_def set_unbounded_edges set_unbounded_ptr set_unbounded_wcs
proof (intro allI impI)
  fix n assume n: "n < length (set_unbounded h f)"
    and u: "(if n = f \<and> f < length h then Some Unbounded else wcs (h ! n)) = Some Unbounded"
  show "has_ptr_call (h ! n) = Some True
        \<or> (\<exists>c. (n, c) \<in> call_edges h \<and>
              (if c = f \<and> f < length h then Some Unbounded else wcs (h ! c)) = Some Unbounded)
        \<or> n \<in> set ps"
  proof (cases "n = f")
    case True
    with c show ?thesis by auto
  next
    case False
    with u n have "wcs (h ! n) = Some Unbounded" "n < length h" by simp_all
    with j have "has_ptr_call (h ! n) = Some True
        \<or> (\<exists>c. (n, c) \<in> call_edges h \<and> wcs (h ! c) = Some Unbounded) \<or> n \<in> set ps"
      unfolding justified_def by blast
    then show ?thesis by auto
  qed
qed

lemma justified_unb_callee:
  assumes j: "justified h (ps @ [f])" and e: "(f, c) \<in> call_edges h"
    and cu: "wcs (h ! c) = Some Unbounded"
  shows "justified (set_unbounded h f) ps"
  unfolding justified_def set_unbounded_edges set_unbounded_ptr set_unbounded_wcs
proof (intro allI impI)
  fix n assume n: "n < length (set_unbounded h f)"
    and u: "(if n = f \<and> f < length h then Some Unbounded else wcs (h ! n)) = Some Unbounded"
  show "has_ptr_call (h ! n) = Some True
        \<or> (\<exists>c. (n, c) \<in> call_edges h \<and>
              (if c = f \<and> f < length h then Some Unbounded else wcs (h ! c)) = Some Unbounded)
        \<or> n \<in> set ps"
  proof (cases "n = f")
    case True
    with e cu show ?thesis by auto
  next
    case False
    with u n have "wcs (h ! n) = Some Unbounded" "n < length h" by simp_all
    with j have "has_ptr_call (h ! n) = Some True
        \<or> (\<exists>c. (n, c) \<in> call_edges h \<and> wcs (h ! c) = Some Unbounded) \<or> n \<in> set (ps @ [f])"
      unfolding justified_def by blast
    with False show ?thesis by auto
  qed
qed

lemma justified_fin:
  assumes j: "justified g (ps @ [f])" and w: "wcs (g ! f) = None"
    and d: "wcs d \<noteq> Some Unbounded" and r: "r_calls d = r_calls (g ! f)"
  shows "justified (g[f := d]) ps"
proof -
  have E: "call_edges (g[f := d]) = call_edges g" using r by (rule call_edges_update)
  show ?thesis
    unfolding justified_def E
  proof (intro allI impI)
    fix n assume n: "n < length (g[f := d])" and u: "wcs (g[f := d] ! n) = Some Unbounded"
    from n u d have nf: "n \<noteq> f" by (auto simp: nth_update_if)
    with n u have un: "wcs (g ! n) = Some Unbounded" "n < length g" by simp_all
    with j have "has_ptr_call (g ! n) = Some True
        \<or> (\<exists>c. (n, c) \<in> call_edges g \<and> wcs (g ! c) = Some Unbounded) \<or> n \<in> set (ps @ [f])"
      unfolding justified_def by blast
    moreover have "wcs (g[f := d] ! c) = Some Unbounded" if "wcs (g ! c) = Some Unbounded" for c
    proof -
      from that w have "c \<noteq> f" by auto
      with that show ?thesis by simp
    qed
    ultimately show "has_ptr_call (g[f := d] ! n) = Some True
        \<or> (\<exists>c. (n, c) \<in> call_edges g \<and> wcs (g[f := d] ! c) = Some Unbounded) \<or> n \<in> set ps"
      using nf by auto
  qed
qed

lemma justified_dflt: "justified h ps \<Longrightarrow> justified (dflt_ptr h f) ps"
  unfolding dflt_ptr_def
  by (cases "has_ptr_call (h ! f) = None") (simp_all add: justified_same)

lemma has_ptr_dflt:
  "(has_ptr_call (dflt_ptr h f ! n) = Some True) = (has_ptr_call (h ! n) = Some True)"
  by (cases "f < length h"; cases "n = f") (auto simp: dflt_ptr_def not_less list_update_beyond)

lemma calc_wcs_justified:
  assumes "calc_wcs n h ps f = Some (Inr h')" "ctx h ps f" "justified h ps"
  shows "justified h' ps"
proof -
  have "justified h ps \<longrightarrow> justified h' ps"
  proof (rule calc_wcs_rule2[OF assms(1,2),
        where P = "\<lambda>h ps f h'. justified h ps \<longrightarrow> justified h' ps"
        and I = "\<lambda>h ps f rs pre g m. justified h ps \<longrightarrow>
            (justified g (ps @ [f]) \<and> wcs (g ! f) = None)"], goal_cases)
    case (1 h ps f)
    show ?case by simp
  next
    case (2 h ps f)
    then show ?case by (simp add: justified_unb)
  next
    case (3 h ps f)
    then show ?case by (simp add: justified_unb justified_dflt)
  next
    case (4 h ps f rs)
    show ?case
    proof
      assume "justified h ps"
      then have "justified h (ps @ [f])" by (rule justified_mono) auto
      then show "justified (dflt_ptr h f) (ps @ [f]) \<and> wcs (dflt_ptr h f ! f) = None"
        using 4(2) by (simp add: justified_dflt dflt_ptr_wcs)
    qed
  next
    case (5 h ps f rs pre g m c g1 v u g2 k)
    show ?case
    proof
      assume "justified h ps"
      with 5(7) have jg: "justified g (ps @ [f])" and wf: "wcs (g ! f) = None" by auto
      from 5(11) jg have j1: "justified g1 (ps @ [f])" by simp
      have f1: "g1 ! f = g ! f"
        using calc_wcs_bounded_keeps_parents[OF 5(9,10,12), of f] by simp
      have e1: "evolves g g1" using 5(9) by (rule calc_wcs_evolves)
      have lf: "f < length g1"
        using ctx_lt[OF 5(1)] evolves_length[OF 5(6)] evolves_length[OF e1] by simp
      have "justified g2 (ps @ [f])"
        unfolding 5(14) using j1 by (rule justified_same) simp_all
      moreover have "wcs (g2 ! f) = None"
        unfolding 5(14) using lf f1 wf by simp
      ultimately show "justified g2 (ps @ [f]) \<and> wcs (g2 ! f) = None" by simp
    qed
  next
    case (6 h ps f rs pre g m c g1 k)
    show ?case
    proof
      assume "justified h ps"
      with 6(7) have jg: "justified g (ps @ [f])" by auto
      from 6(11) jg have j1: "justified g1 (ps @ [f])" by simp
      have e1: "evolves g g1" using 6(9) by (rule calc_wcs_evolves)
      have e: "evolves h g1" using evolves_trans[OF 6(6) e1] .
      have "r_calls (g1 ! f) = Some rs"
        using evolves_r_calls[OF e ctx_lt[OF 6(1)]] 6(5) by simp
      then have "(f, c) \<in> call_edges g1"
        using 6(8) ctx_lt[OF 6(1)] evolves_length[OF e] by (auto simp: call_edges_def)
      with j1 show "justified (set_unbounded g1 f) ps"
        using 6(12) by (rule justified_unb_callee)
    qed
  next
    case (7 h ps f rs g m)
    show ?case
    proof
      assume "justified h ps"
      with 7(7) have jg: "justified g (ps @ [f])" and wf: "wcs (g ! f) = None" by auto
      have "wcs (finish_wcs (g ! f) m) \<noteq> Some Unbounded"
        using is_bounded_finish[of "g ! f" m] by (auto simp: is_bounded_def)
      with jg wf show "justified (g[f := finish_wcs (g ! f) m]) ps"
        by (rule justified_fin) simp
    qed
  qed
  with assms(3) show ?thesis by simp
qed

lemma call_max_cong:
  "(\<And>c. c \<in> set rs \<Longrightarrow> wcs (g1 ! c) = wcs (g ! c)) \<Longrightarrow> call_max g1 rs = call_max g rs"
  unfolding call_max_def by (rule fold_cong) auto

lemma call_max_append:
  "call_max g (pre @ [c]) = max (call_max g pre) (the_int (wcs (g ! c)))"
  by (simp add: call_max_def)

lemma call_max_update: "f \<notin> set rs \<Longrightarrow> call_max (g[f := d]) rs = call_max g rs"
  by (rule call_max_cong) (simp add: nth_update_parent)

lemma union_update:
  "f \<notin> set rs \<Longrightarrow> (\<Union>c\<in>set rs. the_unresolved (g[f := d] ! c)) = (\<Union>c\<in>set rs. the_unresolved (g ! c))"
  by (simp add: nth_update_parent)

lemma bounded_not_f: "\<forall>c\<in>set rs. is_bounded (g ! c) \<Longrightarrow> \<not> is_bounded (g ! f) \<Longrightarrow> f \<notin> set rs"
  by auto

lemma settled_mono: "settled h0 h ps \<Longrightarrow> set ps \<subseteq> set ps' \<Longrightarrow> settled h0 h ps'"
  unfolding settled_def by blast

lemma settled_node_keep:
  assumes s: "settled h0 g ps'" and n: "n < length g" and nf: "n \<noteq> f"
    and nb: "\<not> is_bounded (g ! f)" and b: "is_bounded (g ! n)" and w0: "wcs (h0 ! n) = None"
  shows "\<exists>rs. r_calls (g[f := d] ! n) = Some rs \<and> (\<forall>c\<in>set rs. is_bounded (g[f := d] ! c))
              \<and> wcs (g[f := d] ! n) = Some (Bounded (final_value (g[f := d] ! n) (call_max (g[f := d]) rs)))
              \<and> unresolved_calls (g[f := d] ! n)
                  = Some (the_unresolved (h0 ! n) \<union> (\<Union>c\<in>set rs. the_unresolved (g[f := d] ! c)))"
proof -
  from s n b w0 obtain rs where rs: "r_calls (g ! n) = Some rs" "\<forall>c\<in>set rs. is_bounded (g ! c)"
    "wcs (g ! n) = Some (Bounded (final_value (g ! n) (call_max g rs)))"
    "unresolved_calls (g ! n) = Some (the_unresolved (h0 ! n) \<union> (\<Union>c\<in>set rs. the_unresolved (g ! c)))"
    unfolding settled_def by blast
  have frs: "f \<notin> set rs" using bounded_not_f[OF rs(2) nb] .
  have same: "g[f := d] ! n = g ! n" using nf by simp
  have cs: "\<forall>c\<in>set rs. is_bounded (g[f := d] ! c)"
    using rs(2) by (simp add: nth_update_parent[OF frs])
  show ?thesis
    unfolding same
    using rs cs by (intro exI[of _ rs]) (simp add: call_max_update[OF frs] union_update[OF frs])
qed

lemma settled_keep:
  assumes s: "settled h0 g ps'" and nb: "\<not> is_bounded (g ! f)" and nd: "\<not> is_bounded d"
    and sub: "set ps' \<subseteq> insert f (set ps)" and w: "wcs d = None \<longrightarrow> f \<in> set ps"
  shows "settled h0 (g[f := d]) ps"
  unfolding settled_def
proof (intro allI impI conjI)
  fix n assume n: "n < length (g[f := d])"
    and a: "wcs (g[f := d] ! n) = None \<and> n \<notin> set ps"
  from a w n have nf: "n \<noteq> f" by auto
  with a sub have "wcs (g ! n) = None" "n \<notin> set ps'" by auto
  with s n have "unresolved_calls (g ! n) = unresolved_calls (h0 ! n)"
    unfolding settled_def by simp
  with nf show "unresolved_calls (g[f := d] ! n) = unresolved_calls (h0 ! n)" by simp
next
  fix n assume n: "n < length (g[f := d])"
    and a: "is_bounded (g[f := d] ! n) \<and> wcs (h0 ! n) = None"
  from a nd n have nf: "n \<noteq> f" by auto
  with a have b: "is_bounded (g ! n)" by simp
  from n have n': "n < length g" by simp
  show "\<exists>rs. r_calls (g[f := d] ! n) = Some rs \<and> (\<forall>c\<in>set rs. is_bounded (g[f := d] ! c))
              \<and> wcs (g[f := d] ! n) = Some (Bounded (final_value (g[f := d] ! n) (call_max (g[f := d]) rs)))
              \<and> unresolved_calls (g[f := d] ! n)
                  = Some (the_unresolved (h0 ! n) \<union> (\<Union>c\<in>set rs. the_unresolved (g[f := d] ! c)))"
    using settled_node_keep[OF s n' nf nb b] a by simp
qed

lemma wcs_finish_eq: "wcs (finish_wcs d m) = Some (Bounded (final_value d m))"
  by (simp add: finish_wcs_def final_value_def own_stack_def Let_def split: option.splits)

lemma final_value_finish: "final_value (finish_wcs d m) k = final_value d k"
  using keeps_finish[of d m] by (simp add: final_value_def keeps_def)

lemma unresolved_finish: "unresolved_calls (finish_wcs d m) = unresolved_calls d"
  by (simp add: finish_wcs_def Let_def split: option.splits)

lemma settled_fin:
  assumes s: "settled h0 g (ps @ [f])" and w: "wcs (g ! f) = None" and lf: "f < length g"
    and rs: "r_calls (g ! f) = Some rs" and all: "\<forall>c\<in>set rs. is_bounded (g ! c)"
    and u: "unresolved_calls (g ! f)
              = Some (the_unresolved (h0 ! f) \<union> (\<Union>c\<in>set rs. the_unresolved (g ! c)))"
  shows "settled h0 (g[f := finish_wcs (g ! f) (call_max g rs)]) ps"
  unfolding settled_def
proof (intro allI impI conjI)
  let ?d = "finish_wcs (g ! f) (call_max g rs)"
  fix n assume n: "n < length (g[f := ?d])"
    and a: "wcs (g[f := ?d] ! n) = None \<and> n \<notin> set ps"
  from a n have nf: "n \<noteq> f" by (auto simp: wcs_finish)
  with a have "wcs (g ! n) = None" "n \<notin> set (ps @ [f])" by auto
  with s n have "unresolved_calls (g ! n) = unresolved_calls (h0 ! n)"
    unfolding settled_def by simp
  with nf show "unresolved_calls (g[f := ?d] ! n) = unresolved_calls (h0 ! n)" by simp
next
  let ?d = "finish_wcs (g ! f) (call_max g rs)"
  fix n assume n: "n < length (g[f := ?d])"
    and a: "is_bounded (g[f := ?d] ! n) \<and> wcs (h0 ! n) = None"
  have nb: "\<not> is_bounded (g ! f)" using w by simp
  show "\<exists>rs. r_calls (g[f := ?d] ! n) = Some rs \<and> (\<forall>c\<in>set rs. is_bounded (g[f := ?d] ! c))
              \<and> wcs (g[f := ?d] ! n) = Some (Bounded (final_value (g[f := ?d] ! n) (call_max (g[f := ?d]) rs)))
              \<and> unresolved_calls (g[f := ?d] ! n)
                  = Some (the_unresolved (h0 ! n) \<union> (\<Union>c\<in>set rs. the_unresolved (g[f := ?d] ! c)))"
  proof (cases "n = f")
    case True
    have frs: "f \<notin> set rs" using bounded_not_f[OF all nb] .
    have cs: "\<forall>c\<in>set rs. is_bounded (g[f := ?d] ! c)"
      using all by (simp add: nth_update_parent[OF frs])
    have at: "g[f := ?d] ! n = ?d" using True lf by simp
    show ?thesis
      unfolding at
      using rs cs u True
      by (intro exI[of _ rs])
         (simp add: wcs_finish_eq final_value_finish unresolved_finish
            call_max_update[OF frs] union_update[OF frs])
  next
    case False
    with a have b: "is_bounded (g ! n)" by simp
    from n have n': "n < length g" by simp
    show ?thesis using settled_node_keep[OF s n' False nb b] a by simp
  qed
qed

lemma settled_dflt:
  assumes "settled h0 h ps'" "wcs (h ! f) = None" "set ps' \<subseteq> insert f (set ps)" "f \<in> set ps"
  shows "settled h0 (dflt_ptr h f) ps"
proof (cases "has_ptr_call (h ! f) = None")
  case True
  have "settled h0 (h[f := (h ! f)\<lparr>has_ptr_call := Some False\<rparr>]) ps"
    using assms(1) by (rule settled_keep) (use assms in simp_all)
  with True show ?thesis by (simp add: dflt_ptr_def)
next
  case False
  have "settled h0 h ps"
    using assms(1) by (rule settled_mono) (use assms(3,4) in auto)
  with False show ?thesis by (auto simp: dflt_ptr_def)
qed

lemma settled_unb:
  assumes "settled h0 h ps'" "\<not> is_bounded (h ! f)" "set ps' \<subseteq> insert f (set ps)"
  shows "settled h0 (set_unbounded h f) ps"
  unfolding set_unbounded_def
  using assms(1,2) by (rule settled_keep) (use assms in simp_all)

lemma the_unresolved_Some: "unresolved_calls d = Some u \<Longrightarrow> the_unresolved d = u"
  by (simp add: the_unresolved_def)

lemma calc_wcs_settled:
  assumes "calc_wcs n h ps f = Some (Inr h')" "ctx h ps f" "settled h0 h ps"
  shows "settled h0 h' ps"
proof -
  have "settled h0 h ps \<longrightarrow> settled h0 h' ps"
  proof (rule calc_wcs_rule2[OF assms(1,2),
        where P = "\<lambda>h ps f h'. settled h0 h ps \<longrightarrow> settled h0 h' ps"
        and I = "\<lambda>h ps f rs pre g m. settled h0 h ps \<longrightarrow>
            (settled h0 g (ps @ [f]) \<and> wcs (g ! f) = None \<and> set pre \<subseteq> set rs
             \<and> (\<forall>c\<in>set pre. is_bounded (g ! c)) \<and> m = call_max g pre
             \<and> unresolved_calls (g ! f)
                 = Some (the_unresolved (h0 ! f) \<union> (\<Union>c\<in>set pre. the_unresolved (g ! c))))"],
      goal_cases)
    case (1 h ps f)
    show ?case by simp
  next
    case (2 h ps f)
    show ?case
    proof
      assume "settled h0 h ps"
      then show "settled h0 (set_unbounded h f) ps"
        by (rule settled_unb) (use 2(2) in auto)
    qed
  next
    case (3 h ps f)
    show ?case
    proof
      assume s: "settled h0 h ps"
      have "settled h0 (dflt_ptr h f) ps"
        using s 3(2) _ 3(4) by (rule settled_dflt) auto
      then show "settled h0 (set_unbounded (dflt_ptr h f) f) ps"
        by (rule settled_unb) (use 3(2) in \<open>auto simp: dflt_ptr_wcs\<close>)
    qed
  next
    case (4 h ps f rs)
    show ?case
    proof
      assume s: "settled h0 h ps"
      have s': "settled h0 (dflt_ptr h f) (ps @ [f])"
        using s 4(2) by (rule settled_dflt) auto
      have lf: "f < length h" using ctx_lt[OF 4(1)] .
      from s 4(2,4) lf have "unresolved_calls (h ! f) = unresolved_calls (h0 ! f)"
        unfolding settled_def by simp
      moreover from 4(1) obtain x where "unresolved_calls (h ! f) = Some x"
        by (auto simp: ctx_def node_ok_def)
      ultimately have "unresolved_calls (h0 ! f) = Some x" "unresolved_calls (h ! f) = Some x"
        by simp_all
      then have u: "unresolved_calls (h ! f) = Some (the_unresolved (h0 ! f))"
        by (simp add: the_unresolved_def)
      have "unresolved_calls (dflt_ptr h f ! f) = unresolved_calls (h ! f)"
        using lf by (simp add: dflt_ptr_def)
      with s' u 4(2) show "settled h0 (dflt_ptr h f) (ps @ [f]) \<and> wcs (dflt_ptr h f ! f) = None
             \<and> set [] \<subseteq> set rs \<and> (\<forall>c\<in>set []. is_bounded (dflt_ptr h f ! c)) \<and> 0 = call_max (dflt_ptr h f) []
             \<and> unresolved_calls (dflt_ptr h f ! f)
                 = Some (the_unresolved (h0 ! f) \<union> (\<Union>c\<in>set []. the_unresolved (dflt_ptr h f ! c)))"
        by (simp add: dflt_ptr_wcs call_max_def)
    qed
  next
    case (5 h ps f rs pre g m c g1 v u g2 k)
    show ?case
    proof
      assume "settled h0 h ps"
      with 5(7) have sg: "settled h0 g (ps @ [f])" and wf: "wcs (g ! f) = None"
        and sub: "set pre \<subseteq> set rs" and pb: "\<forall>c\<in>set pre. is_bounded (g ! c)"
        and m: "m = call_max g pre"
        and uf: "unresolved_calls (g ! f)
                 = Some (the_unresolved (h0 ! f) \<union> (\<Union>c\<in>set pre. the_unresolved (g ! c)))"
        by auto
      from 5(11) sg have s1: "settled h0 g1 (ps @ [f])" by simp
      have e1: "evolves g g1" using 5(9) by (rule calc_wcs_evolves)
      have f1: "g1 ! f = g ! f"
        using calc_wcs_bounded_keeps_parents[OF 5(9,10,12), of f] by simp
      have nf1: "\<not> is_bounded (g1 ! f)" using f1 wf by simp
      have lf: "f < length g1"
        using ctx_lt[OF 5(1)] evolves_length[OF 5(6)] evolves_length[OF e1] by simp
      have pre1: "g1 ! c' = g ! c'" if "c' \<in> set pre" for c'
      proof -
        from that sub have "c' \<in> set rs" by auto
        then have "c' < length g"
          using ctx_callee_lt[OF 5(1,5)] evolves_length[OF 5(6)] by simp
        with evolves_bounded_same[OF e1] pb that show ?thesis by simp
      qed
      have nin: "f \<notin> set (pre @ [c])"
      proof
        assume "f \<in> set (pre @ [c])"
        then have "is_bounded (g1 ! f)" using pb pre1 5(12) by auto
        with nf1 show False by simp
      qed
      have same2: "g2 ! c' = g1 ! c'" if "c' \<in> set (pre @ [c])" for c'
        unfolding 5(14) using nin that by (rule nth_update_parent)
      have s2: "settled h0 g2 (ps @ [f])"
        unfolding 5(14) using s1 nf1 by (rule settled_keep) (use nf1 in simp_all)
      have w2: "wcs (g2 ! f) = None" unfolding 5(14) using lf f1 wf by simp
      have pb2: "\<forall>c'\<in>set (pre @ [c]). is_bounded (g2 ! c')"
        using same2 pre1 pb 5(12) by auto
      have cm: "max m v = call_max g2 (pre @ [c])"
      proof -
        have "call_max g2 (pre @ [c]) = call_max g1 (pre @ [c])"
          by (rule call_max_cong) (simp add: same2)
        also have "\<dots> = max (call_max g1 pre) v"
          using 5(12) by (simp add: call_max_append the_int_def)
        also have "call_max g1 pre = call_max g pre"
          by (rule call_max_cong) (simp add: pre1)
        finally show ?thesis using m by simp
      qed
      have u1: "the_unresolved (g1 ! c) = u" using 5(13) by (rule the_unresolved_Some)
      have uf1: "the (unresolved_calls (g1 ! f))
                  = the_unresolved (h0 ! f) \<union> (\<Union>c\<in>set pre. the_unresolved (g ! c))"
        using uf f1 by simp
      have un: "(\<Union>c'\<in>set (pre @ [c]). the_unresolved (g2 ! c'))
                  = (\<Union>c\<in>set pre. the_unresolved (g ! c)) \<union> u"
      proof -
        have "(\<Union>c'\<in>set (pre @ [c]). the_unresolved (g2 ! c'))
              = (\<Union>c'\<in>set (pre @ [c]). the_unresolved (g1 ! c'))"
          using same2 by simp
        also have "\<dots> = (\<Union>c'\<in>set pre. the_unresolved (g1 ! c')) \<union> u"
          using u1 by auto
        also have "(\<Union>c'\<in>set pre. the_unresolved (g1 ! c')) = (\<Union>c\<in>set pre. the_unresolved (g ! c))"
          using pre1 by simp
        finally show ?thesis .
      qed
      have u2: "unresolved_calls (g2 ! f)
                 = Some (the_unresolved (h0 ! f) \<union> (\<Union>c'\<in>set (pre @ [c]). the_unresolved (g2 ! c')))"
        unfolding un unfolding 5(14) using lf uf1 by (simp add: Un_assoc)
      from s2 w2 sub 5(8) pb2 cm u2
      show "settled h0 g2 (ps @ [f]) \<and> wcs (g2 ! f) = None \<and> set (pre @ [c]) \<subseteq> set rs
             \<and> (\<forall>c\<in>set (pre @ [c]). is_bounded (g2 ! c)) \<and> max m v = call_max g2 (pre @ [c])
             \<and> unresolved_calls (g2 ! f)
                 = Some (the_unresolved (h0 ! f) \<union> (\<Union>c\<in>set (pre @ [c]). the_unresolved (g2 ! c)))"
        by simp
    qed
  next
    case (6 h ps f rs pre g m c g1 k)
    show ?case
    proof
      assume "settled h0 h ps"
      with 6(7) have sg: "settled h0 g (ps @ [f])" and wf: "wcs (g ! f) = None" by auto
      from 6(11) sg have s1: "settled h0 g1 (ps @ [f])" by simp
      have "g1 ! f = g ! f \<or> (wcs (g ! f) = None \<and> g1 ! f = cut_node (g ! f))"
        using calc_wcs_parents[OF 6(9,10)] by simp
      with wf have "\<not> is_bounded (g1 ! f)" by auto
      with s1 show "settled h0 (set_unbounded g1 f) ps"
        by (rule settled_unb) auto
    qed
  next
    case (7 h ps f rs g m)
    show ?case
    proof
      assume "settled h0 h ps"
      with 7(7) have sg: "settled h0 g (ps @ [f])" and wf: "wcs (g ! f) = None"
        and pb: "\<forall>c\<in>set rs. is_bounded (g ! c)" and m: "m = call_max g rs"
        and uf: "unresolved_calls (g ! f)
                 = Some (the_unresolved (h0 ! f) \<union> (\<Union>c\<in>set rs. the_unresolved (g ! c)))"
        by auto
      have lf: "f < length g" using ctx_lt[OF 7(1)] evolves_length[OF 7(6)] by simp
      have rs: "r_calls (g ! f) = Some rs"
        using evolves_r_calls[OF 7(6) ctx_lt[OF 7(1)]] 7(5) by simp
      show "settled h0 (g[f := finish_wcs (g ! f) m]) ps"
        unfolding m using sg wf lf rs pb uf by (rule settled_fin)
    qed
  qed
  with assms(3) show ?thesis by simp
qed

section \<open>The pass over all functions\<close>

lemma ctx_root: "linked h \<Longrightarrow> node_ok h r \<Longrightarrow> ctx h [] r"
  by (simp add: ctx_def)

lemma calc_fxns_total:
  assumes "linked h" "\<forall>r\<in>set rs. node_ok h r" "length h < n"
  shows "\<exists>h'. calc_fxns n rs h = Some (Inr h')"
  using assms
proof (induction rs arbitrary: h)
  case Nil
  show ?case by simp
next
  case (Cons r rs)
  have c: "ctx h [] r" using Cons.prems(1,2) by (simp add: ctx_root)
  from calc_wcs_total[OF c, of n] Cons.prems(3)
  obtain h1 where h1: "calc_wcs n h [] r = Some (Inr h1)" by auto
  have e: "evolves h h1" using h1 by (rule calc_wcs_evolves)
  have "\<exists>h'. calc_fxns n rs h1 = Some (Inr h')"
  proof (rule Cons.IH)
    show "linked h1" using evolves_linked[OF e Cons.prems(1)] .
    show "\<forall>r\<in>set rs. node_ok h1 r" using Cons.prems(2) evolves_node_ok[OF e] by simp
    show "length h1 < n" using evolves_length[OF e] Cons.prems(3) by simp
  qed
  with h1 show ?case by simp
qed

lemma calc_fxns_rule:
  assumes run: "calc_fxns n rs h = Some (Inr h')"
    and lk: "linked h" and ok: "\<forall>r\<in>set rs. node_ok h r"
    and inv: "Inv h"
    and step: "\<And>g r g1. ctx g [] r \<Longrightarrow> evolves h g \<Longrightarrow> calc_wcs n g [] r = Some (Inr g1)
                \<Longrightarrow> Inv g \<Longrightarrow> Inv g1"
  shows "Inv h' \<and> evolves h h'"
proof -
  have "Inv h' \<and> evolves h h'" if "calc_fxns n rs g = Some (Inr h')" "evolves h g" "Inv g" for g
    using that ok
  proof (induction rs arbitrary: g)
    case Nil
    then show ?case by simp
  next
    case (Cons r rs)
    from Cons.prems(1) obtain g1 where g1: "calc_wcs n g [] r = Some (Inr g1)"
      and rest: "calc_fxns n rs g1 = Some (Inr h')"
      by (auto split: option.splits sum.splits)
    have c: "ctx g [] r"
      using evolves_linked[OF Cons.prems(2) lk] evolves_node_ok[OF Cons.prems(2)] Cons.prems(4)
      by (simp add: ctx_root)
    have e: "evolves h g1" using evolves_trans[OF Cons.prems(2) calc_wcs_evolves[OF g1]] .
    have i: "Inv g1" using step[OF c Cons.prems(2) g1 Cons.prems(3)] .
    show ?case using Cons.IH[OF rest e i] Cons.prems(4) by simp
  qed
  from this[OF run evolves_refl inv] show ?thesis .
qed

lemma calc_fxns_evolves:
  assumes "calc_fxns n rs h = Some (Inr h')" "linked h" "\<forall>r\<in>set rs. node_ok h r"
  shows "evolves h h'"
  using calc_fxns_rule[OF assms, where Inv = "\<lambda>h. True"] by simp

lemma evolves_wcs_kept: "evolves h h' \<Longrightarrow> n < length h \<Longrightarrow> wcs (h ! n) \<noteq> None \<Longrightarrow> wcs (h' ! n) \<noteq> None"
  by (auto simp: evolves_def)

lemma calc_fxns_sets_wcs:
  assumes "calc_fxns n rs h = Some (Inr h')" "linked h" "\<forall>r\<in>set rs. node_ok h r" "r \<in> set rs"
  shows "wcs (h' ! r) \<noteq> None"
  using assms
proof (induction rs arbitrary: h)
  case Nil
  then show ?case by simp
next
  case (Cons a rs)
  from Cons.prems(1) obtain h1 where h1: "calc_wcs n h [] a = Some (Inr h1)"
    and rest: "calc_fxns n rs h1 = Some (Inr h')"
    by (auto split: option.splits sum.splits)
  have c: "ctx h [] a" using Cons.prems(2,3) by (simp add: ctx_root)
  have e: "evolves h h1" using h1 by (rule calc_wcs_evolves)
  have l1: "linked h1" using evolves_linked[OF e Cons.prems(2)] .
  have ok1: "\<forall>r\<in>set rs. node_ok h1 r" using Cons.prems(3) evolves_node_ok[OF e] by simp
  show ?case
  proof (cases "r \<in> set rs")
    case True
    then show ?thesis using Cons.IH[OF rest l1 ok1] by simp
  next
    case False
    with Cons.prems(4) have ra: "r = a" by simp
    have w1: "wcs (h1 ! a) \<noteq> None" using calc_wcs_sets_wcs[OF h1 c] .
    have e2: "evolves h1 h'" using calc_fxns_evolves[OF rest l1 ok1] .
    have "a < length h1" using ctx_lt[OF c] evolves_length[OF e] by simp
    from evolves_wcs_kept[OF e2 this w1] ra show ?thesis by simp
  qed
qed

lemma calc_all_wcs_run:
  assumes "resolved_graph cg" "length (heap cg) < n"
  shows "\<exists>h'. calc_all_wcs n cg = Some (Inr (cg\<lparr>heap := h'\<rparr>))
      \<and> calc_fxns n (all_fxns cg) (heap cg) = Some (Inr h')
      \<and> evolves (heap cg) h' \<and> (\<forall>r\<in>set (all_fxns cg). wcs (h' ! r) \<noteq> None)"
proof -
  from assms have lk: "linked (heap cg)" and ok: "\<forall>r\<in>set (all_fxns cg). node_ok (heap cg) r"
    by (simp_all add: resolved_graph_def)
  from calc_fxns_total[OF lk ok assms(2)] obtain h' where
    h': "calc_fxns n (all_fxns cg) (heap cg) = Some (Inr h')" by blast
  have 1: "calc_all_wcs n cg = Some (Inr (cg\<lparr>heap := h'\<rparr>))"
    using h' by (simp add: calc_all_wcs_def)
  have 2: "evolves (heap cg) h'" using calc_fxns_evolves[OF h' lk ok] .
  have 3: "\<forall>r\<in>set (all_fxns cg). wcs (h' ! r) \<noteq> None"
    using calc_fxns_sets_wcs[OF h' lk ok] by blast
  from 1 h' 2 3 show ?thesis by (intro exI[of _ h'] conjI)
qed

lemma loaded_bounded_closed:
  assumes "list_all loaded h"
  shows "bounded_closed h"
  unfolding bounded_closed_def
proof (intro allI impI)
  fix n assume n: "n < length h" and b: "is_bounded (h ! n)"
  from assms n have "loaded (h ! n)" by (simp add: list_all_length)
  with b have r: "r_calls (h ! n) = Some []" by (auto simp: loaded_def)
  then have noedge: "(n, c) \<notin> call_edges h" for c by (simp add: call_edges_def)
  have "(n, n) \<notin> (call_edges h)\<^sup>+"
  proof
    assume "(n, n) \<in> (call_edges h)\<^sup>+"
    then obtain c where "(n, c) \<in> call_edges h" by (meson tranclD)
    with noedge show False by simp
  qed
  with noedge show "(\<forall>c. (n, c) \<in> call_edges h \<longrightarrow> is_bounded (h ! c)) \<and> (n, n) \<notin> (call_edges h)\<^sup>+"
    by simp
qed

lemma not_bounded_unbounded: "wcs d \<noteq> None \<Longrightarrow> \<not> is_bounded d \<Longrightarrow> wcs d = Some Unbounded"
  by (cases "wcs d"; cases "the (wcs d)") (auto simp: is_bounded_def)

section \<open>Values and unresolved sets after the pass\<close>

lemma fold_max_eq:
  "fold (\<lambda>c m. max m (g c)) rs (a::int) = Max (insert a (g ` set rs))"
proof (induction rs arbitrary: a)
  case Nil
  show ?case by simp
next
  case (Cons c rs)
  have "Max (insert (max a (g c)) (g ` set rs)) = Max (insert a (insert (g c) (g ` set rs)))"
    by (cases "rs = []") (simp_all add: max.assoc)
  with Cons show ?case by simp
qed

lemma call_max_nonneg: "0 \<le> call_max h rs"
  by (simp add: call_max_def fold_max_eq)

lemma call_max_callee_max:
  assumes "\<forall>c\<in>set rs. 0 \<le> the_int (wcs (h ! c))"
  shows "call_max h rs = callee_max h rs"
proof (cases "rs = []")
  case True
  then show ?thesis by (simp add: call_max_def callee_max_def)
next
  case False
  let ?S = "(\<lambda>c. the_int (wcs (h ! c))) ` set rs"
  have ne: "?S \<noteq> {}" and fin: "finite ?S" using False by simp_all
  have "0 \<le> Max ?S"
  proof -
    from False obtain c where c: "c \<in> set rs" by (cases rs) auto
    with assms have "0 \<le> the_int (wcs (h ! c))" by simp
    also have "\<dots> \<le> Max ?S" using c fin by (intro Max_ge) auto
    finally show ?thesis .
  qed
  then have "Max (insert 0 ?S) = Max ?S" using ne fin by simp
  with False show ?thesis by (simp add: call_max_def callee_max_def fold_max_eq)
qed

lemma justified_init:
  assumes "list_all loaded h"
  shows "justified h []"
  unfolding justified_def
proof (intro allI impI)
  fix n assume "n < length h" "wcs (h ! n) = Some Unbounded"
  with assms have False by (auto simp: list_all_length loaded_def)
  then show "has_ptr_call (h ! n) = Some True
        \<or> (\<exists>c. (n, c) \<in> call_edges h \<and> wcs (h ! c) = Some Unbounded) \<or> n \<in> set []" ..
qed

lemma settled_init: "settled h h []"
  unfolding settled_def
proof (intro allI impI conjI)
  fix n assume "is_bounded (h ! n) \<and> wcs (h ! n) = None"
  then have False by (auto simp: is_bounded_def)
  then show "\<exists>rs. r_calls (h ! n) = Some rs \<and> (\<forall>c\<in>set rs. is_bounded (h ! c))
              \<and> wcs (h ! n) = Some (Bounded (final_value (h ! n) (call_max h rs)))
              \<and> unresolved_calls (h ! n)
                  = Some (the_unresolved (h ! n) \<union> (\<Union>c\<in>set rs. the_unresolved (h ! c)))" ..
qed simp

lemma calc_all_wcs_final:
  assumes "resolved_graph cg" "length (heap cg) < n" "list_all loaded (heap cg)"
  shows "\<exists>h'. calc_all_wcs n cg = Some (Inr (cg\<lparr>heap := h'\<rparr>))
      \<and> evolves (heap cg) h' \<and> (\<forall>r\<in>set (all_fxns cg). wcs (h' ! r) \<noteq> None)
      \<and> justified h' [] \<and> settled (heap cg) h' []"
proof -
  from assms(1) have lk: "linked (heap cg)" and ok: "\<forall>r\<in>set (all_fxns cg). node_ok (heap cg) r"
    by (simp_all add: resolved_graph_def)
  from calc_all_wcs_run[OF assms(1,2)] obtain h' where
    run: "calc_all_wcs n cg = Some (Inr (cg\<lparr>heap := h'\<rparr>))"
    and fx: "calc_fxns n (all_fxns cg) (heap cg) = Some (Inr h')"
    and ev: "evolves (heap cg) h'" and w: "\<forall>r\<in>set (all_fxns cg). wcs (h' ! r) \<noteq> None"
    by (elim exE conjE)
  have j: "justified h' [] \<and> evolves (heap cg) h'"
  proof (rule calc_fxns_rule[OF fx lk ok, where Inv = "\<lambda>h. justified h []"])
    show "justified (heap cg) []" using assms(3) by (rule justified_init)
  next
    fix g r g1
    assume a: "ctx g [] r" "evolves (heap cg) g" "calc_wcs n g [] r = Some (Inr g1)"
      "justified g []"
    show "justified g1 []" by (rule calc_wcs_justified[OF a(3,1,4)])
  qed
  have s: "settled (heap cg) h' [] \<and> evolves (heap cg) h'"
  proof (rule calc_fxns_rule[OF fx lk ok, where Inv = "\<lambda>h. settled (heap cg) h []"])
    show "settled (heap cg) (heap cg) []" by (rule settled_init)
  next
    fix g r g1
    assume a: "ctx g [] r" "evolves (heap cg) g" "calc_wcs n g [] r = Some (Inr g1)"
      "settled (heap cg) g []"
    show "settled (heap cg) g1 []" by (rule calc_wcs_settled[OF a(3,1,4)])
  qed
  from run ev w j s show ?thesis by (intro exI[of _ h'] conjI) simp_all
qed

lemma finite_call_edges: "linked h \<Longrightarrow> finite (call_edges h)"
proof -
  assume "linked h"
  then have "call_edges h \<subseteq> {..<length h} \<times> {..<length h}"
    using call_edges_lt by auto
  then show ?thesis by (rule finite_subset) simp
qed

lemma acyclic_no_unbounded:
  assumes lk: "linked h" and ac: "acyclic (call_edges h)" and j: "justified h []"
    and np: "\<forall>n<length h. has_ptr_call (h ! n) \<noteq> Some True"
    and n: "n < length h"
  shows "wcs (h ! n) \<noteq> Some Unbounded"
proof
  assume u: "wcs (h ! n) = Some Unbounded"
  let ?U = "{m. m < length h \<and> wcs (h ! m) = Some Unbounded}"
  have wf: "wf ((call_edges h)\<inverse>)"
    using finite_call_edges[OF lk] ac by (rule finite_acyclic_wf_converse)
  have "n \<in> ?U" using n u by simp
  with wf obtain z where z: "z \<in> ?U" and mn: "\<And>y. (y, z) \<in> (call_edges h)\<inverse> \<Longrightarrow> y \<notin> ?U"
    by (rule wfE_min) blast
  from z j np obtain c where c: "(z, c) \<in> call_edges h" "wcs (h ! c) = Some Unbounded"
    unfolding justified_def by auto
  from call_edges_lt[OF lk c(1)] c(2) have "c \<in> ?U" by simp
  moreover from c(1) have "(c, z) \<in> (call_edges h)\<inverse>" by simp
  ultimately show False using mn by blast
qed

lemma resolved_callees_Some: "r_calls d = Some rs \<Longrightarrow> resolved_callees d = rs"
  by (simp add: resolved_callees_def)

lemma final_value_plain: "clob_sp d = None \<Longrightarrow> final_value d m = m + own_stack d"
  by (simp add: final_value_def)

lemma evolves_keeps: "evolves h h' \<Longrightarrow> n < length h \<Longrightarrow> keeps (h ! n) (h' ! n)"
  by (simp add: evolves_def)

lemma evolves_same: "evolves h h' \<Longrightarrow> n < length h \<Longrightarrow> wcs (h ! n) \<noteq> None \<Longrightarrow> h' ! n = h ! n"
  by (simp add: evolves_def)

lemma final_nonneg:
  assumes ev: "evolves h0 h'" and s: "settled h0 h' []"
    and ld: "list_all loaded h0" and pl: "list_all plain h0"
    and n: "n < length h0" and v: "wcs (h' ! n) = Some (Bounded v)"
  shows "0 \<le> v"
proof (cases "wcs (h0 ! n) = None")
  case True
  have n': "n < length h'" using n evolves_length[OF ev] by simp
  from s n' v True obtain rs where
    w: "wcs (h' ! n) = Some (Bounded (final_value (h' ! n) (call_max h' rs)))"
    unfolding settled_def by (metis is_bounded_simps(3))
  from pl n have p: "clob_sp (h0 ! n) = None" "0 \<le> own_stack (h0 ! n)"
    by (simp_all add: list_all_length plain_def)
  from evolves_keeps[OF ev n] p have "clob_sp (h' ! n) = None" "0 \<le> own_stack (h' ! n)"
    by (simp_all add: keeps_def)
  with w v call_max_nonneg[of h' rs] show ?thesis by (simp add: final_value_plain)
next
  case False
  then have same: "h' ! n = h0 ! n" using evolves_same[OF ev n] by simp
  from ld n have "loaded (h0 ! n)" by (simp add: list_all_length)
  with False v same have "v = own_stack (h0 ! n)" by (auto simp: loaded_def)
  moreover from pl n have "0 \<le> own_stack (h0 ! n)" by (simp add: list_all_length plain_def)
  ultimately show ?thesis by simp
qed

section \<open>Resolution\<close>

lemma find_fxn_in_all:
  assumes "find_fxn cg t c = Some r"
  shows "r \<in> set (all_fxns cg)"
proof (cases "map_of (globals cg) c")
  case (Some g)
  with assms have "g = r" by (simp add: find_fxn_def has_key_def)
  with Some have "(c, r) \<in> set (globals cg)" by (simp add: map_of_SomeD)
  then have "r \<in> snd ` set (globals cg)" by force
  then show ?thesis by (simp add: all_fxns_def)
next
  case None
  with assms obtain l where l: "map_of (locals cg) c = Some l" and r: "map_of l t = Some r"
    by (auto simp: find_fxn_def has_key_def split: option.splits)
  from l have "(c, l) \<in> set (locals cg)" by (rule map_of_SomeD)
  moreover from r have "(t, r) \<in> set l" by (rule map_of_SomeD)
  ultimately have "r \<in> set (concat (map (\<lambda>nl. map snd (snd nl)) (locals cg)))"
    by force
  then show ?thesis by (simp add: all_fxns_def)
qed

lemma resolve_loop_refs:
  "set (fst (resolve_loop cg t cs rs us)) \<subseteq> set rs \<union> set (all_fxns cg)"
proof (induction cs arbitrary: rs us)
  case Nil
  show ?case by simp
next
  case (Cons c cs)
  show ?case
  proof (cases "find_fxn cg t c")
    case None
    with Cons.IH[of rs "insert c us"] show ?thesis by simp
  next
    case (Some r)
    with Cons.IH[of "rs @ [r]" us] find_fxn_in_all[OF Some] show ?thesis by auto
  qed
qed

lemma find_fxn_cong:
  "globals cg' = globals cg \<Longrightarrow> locals cg' = locals cg \<Longrightarrow> find_fxn cg' t c = find_fxn cg t c"
  by (simp add: find_fxn_def)

lemma resolve_loop_cong:
  assumes "globals cg' = globals cg" "locals cg' = locals cg"
  shows "resolve_loop cg' t cs rs us = resolve_loop cg t cs rs us"
proof (induction cs arbitrary: rs us)
  case Nil
  show ?case by simp
next
  case (Cons c cs)
  have "find_fxn cg' t c = find_fxn cg t c" using assms by (rule find_fxn_cong)
  with Cons show ?case by (simp split: option.splits)
qed

lemma resolve_calls_cong:
  assumes "globals cg' = globals cg" "locals cg' = locals cg" "calls d' = calls d" "tu d' = tu d"
  shows "r_calls (resolve_calls cg' d') = r_calls (resolve_calls cg d)"
    and "unresolved_calls (resolve_calls cg' d') = unresolved_calls (resolve_calls cg d)"
  using assms
  by (simp_all add: resolve_calls_def resolve_loop_cong[OF assms(1,2)] split: option.splits prod.splits)

lemma resolve_calls_fields [simp]:
  "wcs (resolve_calls cg d) = wcs d" "calls (resolve_calls cg d) = calls d"
  "tu (resolve_calls cg d) = tu d" "name (resolve_calls cg d) = name d"
  "has_ptr_call (resolve_calls cg d) = has_ptr_call d"
  "local_stack (resolve_calls cg d) = local_stack d"
  "clob_sp (resolve_calls cg d) = clob_sp d"
  by (simp_all add: resolve_calls_def split: option.splits prod.splits)

lemma resolve_calls_sets:
  "\<exists>rs us. r_calls (resolve_calls cg d) = Some rs \<and> set rs \<subseteq> set (all_fxns cg)
      \<and> unresolved_calls (resolve_calls cg d) = Some us"
proof (cases "calls d")
  case None
  then show ?thesis by (simp add: resolve_calls_def)
next
  case (Some cs)
  obtain rs us where l: "resolve_loop cg (tu d) cs [] {} = (rs, us)" by force
  from resolve_loop_refs[of cg "tu d" cs "[]" "{}"] l have "set rs \<subseteq> set (all_fxns cg)" by simp
  with Some l show ?thesis by (simp add: resolve_calls_def)
qed

lemma resolve_calls_idem: "resolve_calls cg (resolve_calls cg d) = resolve_calls cg d"
  by (simp add: resolve_calls_def split: option.splits prod.splits)

lemma length_resolve_fxns [simp]: "length (resolve_fxns cg rs h) = length h"
  by (induction rs arbitrary: h) simp_all

lemma resolve_fxns_nth:
  "n < length h \<Longrightarrow>
   resolve_fxns cg rs h ! n = (if n \<in> set rs then resolve_calls cg (h ! n) else h ! n)"
proof (induction rs arbitrary: h)
  case Nil
  show ?case by simp
next
  case (Cons r rs)
  have len: "n < length (h[r := resolve_calls cg (h ! r)])" using Cons.prems by simp
  show ?case
  proof (cases "n = r")
    case True
    with Cons.prems Cons.IH[OF len] show ?thesis by (simp add: resolve_calls_idem)
  next
    case False
    with Cons.prems Cons.IH[OF len] show ?thesis by simp
  qed
qed

lemma all_fxns_resolve [simp]: "all_fxns (resolve_all_calls cg) = all_fxns cg"
  by (simp add: resolve_all_calls_def all_fxns_def)

lemma length_resolve_all [simp]: "length (heap (resolve_all_calls cg)) = length (heap cg)"
  by (simp add: resolve_all_calls_def)

lemma resolve_all_nth:
  "n < length (heap cg) \<Longrightarrow>
   heap (resolve_all_calls cg) ! n
     = (if n \<in> set (all_fxns cg) then resolve_calls cg (heap cg ! n) else heap cg ! n)"
  by (simp add: resolve_all_calls_def resolve_fxns_nth)

lemma resolve_all_resolved:
  assumes "loaded_graph cg"
  shows "resolved_graph (resolve_all_calls cg)"
proof -
  let ?h = "heap (resolve_all_calls cg)"
  from assms have rng: "\<forall>r\<in>set (all_fxns cg). r < length (heap cg)"
    and out: "\<forall>n<length (heap cg). n \<notin> set (all_fxns cg) \<longrightarrow> r_calls (heap cg ! n) = None"
    by (simp_all add: loaded_graph_def)
  have ok: "node_ok ?h r" if "r \<in> set (all_fxns cg)" for r
  proof -
    from that rng have lt: "r < length (heap cg)" by simp
    with that have "?h ! r = resolve_calls cg (heap cg ! r)" by (simp add: resolve_all_nth)
    with resolve_calls_sets[of cg "heap cg ! r"] lt show ?thesis by (auto simp: node_ok_def)
  qed
  have "linked ?h"
    unfolding linked_def
  proof (intro allI impI ballI)
    fix n rs c assume n: "n < length ?h" and r: "r_calls (?h ! n) = Some rs" and c: "c \<in> set rs"
    from n have n': "n < length (heap cg)" by simp
    have inn: "n \<in> set (all_fxns cg)"
    proof (rule ccontr)
      assume "n \<notin> set (all_fxns cg)"
      with n' out r show False by (simp add: resolve_all_nth)
    qed
    with n' r have "r_calls (resolve_calls cg (heap cg ! n)) = Some rs"
      by (simp add: resolve_all_nth)
    with resolve_calls_sets[of cg "heap cg ! n"] c have "c \<in> set (all_fxns cg)" by auto
    then show "node_ok ?h c" by (rule ok)
  qed
  with ok show ?thesis by (simp add: resolved_graph_def)
qed

lemma calc_fxns_noop:
  "\<forall>r\<in>set rs. wcs (h ! r) \<noteq> None \<Longrightarrow> calc_fxns (Suc n) rs h = Some (Inr h)"
  by (induction rs) simp_all

lemma globals_resolve [simp]: "globals (resolve_all_calls cg) = globals cg"
  by (simp add: resolve_all_calls_def)

lemma locals_resolve [simp]: "locals (resolve_all_calls cg) = locals cg"
  by (simp add: resolve_all_calls_def)

lemma all_fxns_heap [simp]: "all_fxns (cg\<lparr>heap := h\<rparr>) = all_fxns cg"
  by (simp add: all_fxns_def)

lemma evolves_calls: "evolves h h' \<Longrightarrow> n < length h \<Longrightarrow> calls (h' ! n) = calls (h ! n) \<and> tu (h' ! n) = tu (h ! n)"
  by (simp add: evolves_def keeps_def)

section \<open>Manual entries\<close>

lemma update_fresh: "\<not> has_key al k \<Longrightarrow> AList.update k v al = al @ [(k, v)]"
  by (induction al) (auto simp: has_key_def split: if_splits)

lemma read_manual_line_fresh:
  assumes "\<not> has_key (globals cg) fxn"
  shows "read_manual_line cg (fxn, b)
          = Inr (cg\<lparr>heap := heap cg @ [manual_node fxn b],
                    globals := globals cg @ [(fxn, length (heap cg))]\<rparr>)"
  using assms by (simp add: read_manual_line_def update_fresh)

lemma find_fxn_last:
  "\<not> has_key gs fxn \<Longrightarrow> find_fxn (cg\<lparr>heap := h, globals := gs @ [(fxn, m)]\<rparr>) t fxn = Some m"
  by (simp add: find_fxn_def has_key_def map_add_def)

lemma resolve_manual_node:
  "resolve_calls cg (manual_node fxn b)
     = (manual_node fxn b)\<lparr>r_calls := Some [], unresolved_calls := Some {}\<rparr>"
  by (simp add: resolve_calls_def manual_node_def)

lemma loaded_graph_manual:
  assumes "loaded_graph cg"
  shows "loaded_graph (cg\<lparr>heap := heap cg @ [manual_node fxn b],
                           globals := globals cg @ [(fxn, length (heap cg))]\<rparr>)"
proof -
  let ?cg1 = "cg\<lparr>heap := heap cg @ [manual_node fxn b],
                   globals := globals cg @ [(fxn, length (heap cg))]\<rparr>"
  have a: "set (all_fxns ?cg1) = insert (length (heap cg)) (set (all_fxns cg))"
    by (auto simp: all_fxns_def)
  from assms have rng: "\<forall>r\<in>set (all_fxns cg). r < length (heap cg)"
    and out: "\<forall>n<length (heap cg). n \<notin> set (all_fxns cg) \<longrightarrow> r_calls (heap cg ! n) = None"
    by (simp_all add: loaded_graph_def)
  have 1: "\<forall>r\<in>set (all_fxns ?cg1). r < length (heap ?cg1)"
    unfolding a using rng by auto
  have 2: "\<forall>n<length (heap ?cg1). n \<notin> set (all_fxns ?cg1) \<longrightarrow> r_calls (heap ?cg1 ! n) = None"
  proof (intro allI impI)
    fix n assume n: "n < length (heap ?cg1)" and ni: "n \<notin> set (all_fxns ?cg1)"
    from ni have "n \<noteq> length (heap cg)" "n \<notin> set (all_fxns cg)" unfolding a by auto
    with n have lt: "n < length (heap cg)" by simp
    with out \<open>n \<notin> set (all_fxns cg)\<close> show "r_calls (heap ?cg1 ! n) = None"
      by (simp add: nth_append)
  qed
  from 1 2 show ?thesis unfolding loaded_graph_def by (intro conjI)
qed

lemma manual_entry_final:
  assumes lg: "loaded_graph cg" and nk: "\<not> has_key (globals cg) fxn"
    and n: "Suc (length (heap cg)) < n"
  shows "\<exists>cg1 cg2. read_manual_line cg (fxn, b) = Inr cg1
          \<and> find_fxn cg1 t fxn = Some (length (heap cg))
          \<and> analyse n cg1 = Some (Inr cg2)
          \<and> wcs (heap cg2 ! length (heap cg)) = Some (Bounded b)
          \<and> r_calls (heap cg2 ! length (heap cg)) = Some []
          \<and> unresolved_calls (heap cg2 ! length (heap cg)) = Some {}"
proof -
  let ?m = "length (heap cg)"
  let ?cg1 = "cg\<lparr>heap := heap cg @ [manual_node fxn b], globals := globals cg @ [(fxn, ?m)]\<rparr>"
  let ?r = "resolve_all_calls ?cg1"
  have rd: "read_manual_line cg (fxn, b) = Inr ?cg1" using nk by (rule read_manual_line_fresh)
  have ff: "find_fxn ?cg1 t fxn = Some ?m" using nk by (rule find_fxn_last)
  have lg1: "loaded_graph ?cg1" using lg by (rule loaded_graph_manual)
  have r1: "resolved_graph ?r" using lg1 by (rule resolve_all_resolved)
  have l1: "length (heap ?r) < n" using n by simp
  from calc_all_wcs_run[OF r1 l1] obtain h1 where
    run1: "calc_all_wcs n ?r = Some (Inr (?r\<lparr>heap := h1\<rparr>))"
    and ev: "evolves (heap ?r) h1"
    by (elim exE conjE)
  have an: "analyse n ?cg1 = Some (Inr (?r\<lparr>heap := h1\<rparr>))" using run1 by (simp add: analyse_def)
  have min: "?m \<in> set (all_fxns ?cg1)" by (simp add: all_fxns_def)
  have ml: "?m < length (heap ?cg1)" by simp
  have at: "heap ?r ! ?m = (manual_node fxn b)\<lparr>r_calls := Some [], unresolved_calls := Some {}\<rparr>"
    using resolve_all_nth[OF ml] min by (simp add: resolve_manual_node)
  have "wcs (heap ?r ! ?m) \<noteq> None" unfolding at by (simp add: manual_node_def)
  moreover have "?m < length (heap ?r)" by simp
  ultimately have same: "h1 ! ?m = heap ?r ! ?m" using evolves_same[OF ev] by blast
  have 1: "wcs (heap (?r\<lparr>heap := h1\<rparr>) ! ?m) = Some (Bounded b)"
    using same at by (simp add: manual_node_def)
  have 2: "r_calls (heap (?r\<lparr>heap := h1\<rparr>) ! ?m) = Some []"
    using same at by simp
  have 3: "unresolved_calls (heap (?r\<lparr>heap := h1\<rparr>) ! ?m) = Some {}"
    using same at by simp
  from rd ff an 1 2 3 show ?thesis
    by (intro exI[of _ ?cg1] exI[of _ "?r\<lparr>heap := h1\<rparr>"] conjI)
qed

lemma caller_of_leaf:
  assumes rg: "resolved_graph cg" and n: "length (heap cg) < n" and ld: "list_all loaded (heap cg)"
    and f: "f \<in> set (all_fxns cg)" and wf: "wcs (heap cg ! f) = None"
    and np: "has_ptr_call (heap cg ! f) \<noteq> Some True" and nc: "clob_sp (heap cg ! f) = None"
    and rs: "r_calls (heap cg ! f) = Some [m]" and wm: "wcs (heap cg ! m) = Some (Bounded b)"
  shows "\<exists>cg'. calc_all_wcs n cg = Some (Inr cg')
           \<and> wcs (heap cg' ! f) = Some (Bounded (own_stack (heap cg ! f) + max 0 b))"
proof -
  let ?h = "heap cg"
  from rg have lk: "linked ?h" and ok: "\<forall>r\<in>set (all_fxns cg). node_ok ?h r"
    by (simp_all add: resolved_graph_def)
  from calc_all_wcs_final[OF rg n ld] obtain h' where
    run: "calc_all_wcs n cg = Some (Inr (cg\<lparr>heap := h'\<rparr>))"
    and ev: "evolves ?h h'" and w: "\<forall>r\<in>set (all_fxns cg). wcs (h' ! r) \<noteq> None"
    and j: "justified h' []" and s: "settled ?h h' []"
    by (elim exE conjE)
  from ok f have lf: "f < length ?h" by (simp add: node_ok_def)
  have lf': "f < length h'" using lf evolves_length[OF ev] by simp
  from lk lf rs have lm: "m < length ?h" by (auto simp: linked_def node_ok_def)
  have wm': "wcs (h' ! m) = Some (Bounded b)" using evolves_same[OF ev lm] wm by simp
  have E: "call_edges h' = call_edges ?h" using ev by (rule call_edges_evolves)
  have nu: "wcs (h' ! f) \<noteq> Some Unbounded"
  proof
    assume u: "wcs (h' ! f) = Some Unbounded"
    with j lf' have "has_ptr_call (h' ! f) = Some True
        \<or> (\<exists>c. (f, c) \<in> call_edges h' \<and> wcs (h' ! c) = Some Unbounded)"
      unfolding justified_def by auto
    then show False
    proof
      assume "has_ptr_call (h' ! f) = Some True"
      with has_ptr_evolves[OF ev lf] np show False by simp
    next
      assume "\<exists>c. (f, c) \<in> call_edges h' \<and> wcs (h' ! c) = Some Unbounded"
      then obtain c where c: "(f, c) \<in> call_edges ?h" "wcs (h' ! c) = Some Unbounded"
        unfolding E by blast
      from c(1) rs have "c = m" by (auto simp: call_edges_def)
      with c(2) wm' show False by simp
    qed
  qed
  have wn: "wcs (h' ! f) \<noteq> None" using w f by simp
  have b: "is_bounded (h' ! f)"
    using wn nu by (cases "wcs (h' ! f)"; cases "the (wcs (h' ! f))") (auto simp: is_bounded_def)
  from s lf' b wf obtain rs' where rs': "r_calls (h' ! f) = Some rs'"
    and v: "wcs (h' ! f) = Some (Bounded (final_value (h' ! f) (call_max h' rs')))"
    unfolding settled_def by blast
  from rs' rs evolves_r_calls[OF ev lf] have eq: "rs' = [m]" by simp
  from evolves_keeps[OF ev lf] nc have k: "clob_sp (h' ! f) = None" "own_stack (h' ! f) = own_stack (?h ! f)"
    by (simp_all add: keeps_def)
  have cm: "call_max h' [m] = max 0 b" using wm' by (simp add: call_max_def the_int_def)
  have "wcs (h' ! f) = Some (Bounded (own_stack (?h ! f) + max 0 b))"
    using v eq k cm by (simp add: final_value_plain add.commute)
  with run show ?thesis by (intro exI[of _ "cg\<lparr>heap := h'\<rparr>"]) simp
qed

section \<open>Recursion and pointer calls\<close>

lemma cycle_resolved:
  "resolve_all_calls cycle_graph =
     empty_graph\<lparr>heap := [(fxn_node ''A'' [''B''] False 8)\<lparr>r_calls := Some [1], unresolved_calls := Some {}\<rparr>,
                          (fxn_node ''B'' [''A''] False 12)\<lparr>r_calls := Some [0], unresolved_calls := Some {}\<rparr>],
                  globals := [(''A'', 0), (''B'', 1)]\<rparr>"
  by (simp add: cycle_graph_def resolve_all_calls_def all_fxns_def empty_graph_def
        resolve_calls_def fxn_node_def new_node_def find_fxn_def has_key_def)

lemma ptr_callee_resolved:
  "resolve_all_calls ptr_callee_graph =
     empty_graph\<lparr>heap := [(fxn_node ''f'' [''g''] True 8)\<lparr>r_calls := Some [1], unresolved_calls := Some {}\<rparr>,
                          (fxn_node ''g'' [] False 4)\<lparr>r_calls := Some [], unresolved_calls := Some {}\<rparr>],
                  globals := [(''f'', 0), (''g'', 1)]\<rparr>"
  by (simp add: ptr_callee_graph_def resolve_all_calls_def all_fxns_def empty_graph_def
        resolve_calls_def fxn_node_def new_node_def find_fxn_def has_key_def)

text \<open>
  C4. On a resolved graph, with enough recursion depth, \<open>calc_all_wcs\<close> returns and
  every function that is reachable from itself through resolved calls, hence every function
  of a cycle, is finalised as \<open>unbounded\<close>; e.g. A calls B and B calls A makes both
  unbounded.
\<close>

theorem recursion_unbounded:
  assumes "resolved_graph cg" and "length (heap cg) < n"
    and "list_all loaded (heap cg)"
  shows "\<exists>cg'. calc_all_wcs n cg = Some (Inr cg') \<and>
           (\<forall>f\<in>set (all_fxns cg). (f, f) \<in> (call_edges (heap cg))\<^sup>+ \<longrightarrow>
               wcs (heap cg' ! f) = Some Unbounded)"
proof -
  from assms(1) have lk: "linked (heap cg)" and ok: "\<forall>r\<in>set (all_fxns cg). node_ok (heap cg) r"
    by (simp_all add: resolved_graph_def)
  from calc_all_wcs_run[OF assms(1,2)] obtain h' where
    run: "calc_all_wcs n cg = Some (Inr (cg\<lparr>heap := h'\<rparr>))"
    and fx: "calc_fxns n (all_fxns cg) (heap cg) = Some (Inr h')"
    and ev: "evolves (heap cg) h'" and w: "\<forall>r\<in>set (all_fxns cg). wcs (h' ! r) \<noteq> None"
    by (elim exE conjE)
  have i0: "bounded_closed (heap cg)" using assms(3) by (rule loaded_bounded_closed)
  have "bounded_closed h' \<and> evolves (heap cg) h'"
  proof (rule calc_fxns_rule[OF fx lk ok, where Inv = bounded_closed])
    show "bounded_closed (heap cg)" by (rule i0)
  next
    fix g r g1
    assume a: "ctx g [] r" "evolves (heap cg) g" "calc_wcs n g [] r = Some (Inr g1)"
      "bounded_closed g"
    show "bounded_closed g1" by (rule calc_wcs_bounded_closed[OF a(3,1,4)])
  qed
  then have bc: "bounded_closed h'" by simp
  have E: "call_edges h' = call_edges (heap cg)" using ev by (rule call_edges_evolves)
  have "wcs (h' ! f) = Some Unbounded"
    if f: "f \<in> set (all_fxns cg)" and cyc: "(f, f) \<in> (call_edges (heap cg))\<^sup>+" for f
  proof -
    have lf: "f < length h'" using ok f evolves_length[OF ev] by (auto simp: node_ok_def)
    with bc cyc have "\<not> is_bounded (h' ! f)" unfolding bounded_closed_def E by blast
    moreover have "wcs (h' ! f) \<noteq> None" using w f by simp
    ultimately show ?thesis by (rule not_bounded_unbounded[rotated])
  qed
  with run show ?thesis by (intro exI[of _ "cg\<lparr>heap := h'\<rparr>"]) simp
qed

theorem recursion_unbounded_witness:
  "resolved_graph (resolve_all_calls cycle_graph)
   \<and> length (heap (resolve_all_calls cycle_graph)) < 3
   \<and> list_all loaded (heap (resolve_all_calls cycle_graph))
   \<and> (0, 0) \<in> (call_edges (heap (resolve_all_calls cycle_graph)))\<^sup>+
   \<and> (1, 1) \<in> (call_edges (heap (resolve_all_calls cycle_graph)))\<^sup>+
   \<and> (\<exists>cg'. calc_all_wcs 3 (resolve_all_calls cycle_graph) = Some (Inr cg')
          \<and> wcs (heap cg' ! 0) = Some Unbounded \<and> wcs (heap cg' ! 1) = Some Unbounded)"
proof -
  let ?g = "resolve_all_calls cycle_graph"
  have r: "resolved_graph ?g"
    unfolding cycle_resolved
    by (simp add: resolved_graph_def linked_def node_ok_def all_fxns_def empty_graph_def
          All_less_Suc fxn_node_def new_node_def)
  have l: "length (heap ?g) < 3" unfolding cycle_resolved by (simp add: empty_graph_def)
  have ld: "list_all loaded (heap ?g)"
    unfolding cycle_resolved by (simp add: empty_graph_def loaded_def fxn_node_def new_node_def)
  have e01: "(0, 1) \<in> call_edges (heap ?g)" and e10: "(1, 0) \<in> call_edges (heap ?g)"
    unfolding cycle_resolved by (simp_all add: call_edges_def empty_graph_def)
  have c0: "(0, 0) \<in> (call_edges (heap ?g))\<^sup>+"
    by (rule trancl_into_trancl[OF r_into_trancl[OF e01] e10])
  have c1: "(1, 1) \<in> (call_edges (heap ?g))\<^sup>+"
    by (rule trancl_into_trancl[OF r_into_trancl[OF e10] e01])
  have a0: "0 \<in> set (all_fxns ?g)" and a1: "1 \<in> set (all_fxns ?g)"
    unfolding cycle_resolved by (simp_all add: all_fxns_def empty_graph_def)
  from recursion_unbounded[OF r l ld] obtain cg' where
    run: "calc_all_wcs 3 ?g = Some (Inr cg')"
    and all: "\<forall>f\<in>set (all_fxns ?g). (f, f) \<in> (call_edges (heap ?g))\<^sup>+ \<longrightarrow>
               wcs (heap cg' ! f) = Some Unbounded"
    by blast
  from all a0 c0 have w0: "wcs (heap cg' ! 0) = Some Unbounded" by blast
  from all a1 c1 have w1: "wcs (heap cg' ! 1) = Some Unbounded" by blast
  from r l ld c0 c1 run w0 w1 show ?thesis by blast
qed

text \<open>
  C5. On a resolved graph, with enough recursion depth, \<open>calc_all_wcs\<close> returns and
  a function whose \<open>has_ptr_call\<close> is true (and that has no \<open>wcs\<close> yet) is finalised
  as \<open>unbounded\<close>, whatever its local stack and its callees.
\<close>

theorem pointer_call_unbounded:
  assumes "resolved_graph cg" and "length (heap cg) < n"
    and "f \<in> set (all_fxns cg)" and "has_ptr_call (heap cg ! f) = Some True"
    and "wcs (heap cg ! f) = None"
  shows "\<exists>cg'. calc_all_wcs n cg = Some (Inr cg') \<and> wcs (heap cg' ! f) = Some Unbounded"
proof -
  from assms(1) have lk: "linked (heap cg)" and ok: "\<forall>r\<in>set (all_fxns cg). node_ok (heap cg) r"
    by (simp_all add: resolved_graph_def)
  from calc_all_wcs_run[OF assms(1,2)] obtain h' where
    run: "calc_all_wcs n cg = Some (Inr (cg\<lparr>heap := h'\<rparr>))"
    and fx: "calc_fxns n (all_fxns cg) (heap cg) = Some (Inr h')"
    and ev: "evolves (heap cg) h'" and w: "\<forall>r\<in>set (all_fxns cg). wcs (h' ! r) \<noteq> None"
    by (elim exE conjE)
  have i0: "no_ptr_bounded (heap cg) f" using assms(5) by (simp add: no_ptr_bounded_def)
  have "no_ptr_bounded h' f \<and> evolves (heap cg) h'"
  proof (rule calc_fxns_rule[OF fx lk ok, where Inv = "\<lambda>h. no_ptr_bounded h f"])
    show "no_ptr_bounded (heap cg) f" by (rule i0)
  next
    fix g r g1
    assume a: "ctx g [] r" "evolves (heap cg) g" "calc_wcs n g [] r = Some (Inr g1)"
      "no_ptr_bounded g f"
    show "no_ptr_bounded g1 f" by (rule calc_wcs_no_ptr_bounded[OF a(3,1,4)])
  qed
  then have npb: "no_ptr_bounded h' f" by simp
  have lf: "f < length (heap cg)" using ok assms(3) by (auto simp: node_ok_def)
  have "has_ptr_call (h' ! f) = Some True"
    using has_ptr_evolves[OF ev lf] assms(4) by simp
  with npb have "\<not> is_bounded (h' ! f)" by (simp add: no_ptr_bounded_def)
  moreover have "wcs (h' ! f) \<noteq> None" using w assms(3) by simp
  ultimately have "wcs (h' ! f) = Some Unbounded" by (rule not_bounded_unbounded[rotated])
  with run show ?thesis by (intro exI[of _ "cg\<lparr>heap := h'\<rparr>"]) simp
qed

theorem pointer_call_unbounded_witness:
  "resolved_graph (resolve_all_calls ptr_callee_graph)
   \<and> length (heap (resolve_all_calls ptr_callee_graph)) < 3
   \<and> 0 \<in> set (all_fxns (resolve_all_calls ptr_callee_graph))
   \<and> has_ptr_call (heap (resolve_all_calls ptr_callee_graph) ! 0) = Some True
   \<and> wcs (heap (resolve_all_calls ptr_callee_graph) ! 0) = None
   \<and> (\<exists>cg'. calc_all_wcs 3 (resolve_all_calls ptr_callee_graph) = Some (Inr cg')
          \<and> wcs (heap cg' ! 0) = Some Unbounded)"
proof -
  let ?g = "resolve_all_calls ptr_callee_graph"
  have r: "resolved_graph ?g"
    unfolding ptr_callee_resolved
    by (simp add: resolved_graph_def linked_def node_ok_def all_fxns_def empty_graph_def
          All_less_Suc fxn_node_def new_node_def)
  have l: "length (heap ?g) < 3" unfolding ptr_callee_resolved by (simp add: empty_graph_def)
  have a: "0 \<in> set (all_fxns ?g)"
    unfolding ptr_callee_resolved by (simp add: all_fxns_def empty_graph_def)
  have p: "has_ptr_call (heap ?g ! 0) = Some True"
    unfolding ptr_callee_resolved by (simp add: empty_graph_def fxn_node_def)
  have w: "wcs (heap ?g ! 0) = None"
    unfolding ptr_callee_resolved by (simp add: empty_graph_def fxn_node_def new_node_def)
  from r l a p w pointer_call_unbounded[OF r l a p w] show ?thesis by (intro conjI)
qed

section \<open>The worst case of acyclic graphs\<close>

lemma forward_acyclic: "E \<subseteq> less_than \<Longrightarrow> acyclic E"
  using acyclic_subset[OF wf_acyclic[OF wf_less_than]] by blast

lemma chain_resolved:
  "resolve_all_calls chain_graph =
     empty_graph\<lparr>heap := [(fxn_node ''A'' [''B''] False 8)\<lparr>r_calls := Some [1], unresolved_calls := Some {}\<rparr>,
                          (fxn_node ''B'' [''C''] False 12)\<lparr>r_calls := Some [2], unresolved_calls := Some {}\<rparr>,
                          (fxn_node ''C'' [] False 4)\<lparr>r_calls := Some [], unresolved_calls := Some {}\<rparr>],
                  globals := [(''A'', 0), (''B'', 1), (''C'', 2)]\<rparr>"
  by (simp add: chain_graph_def resolve_all_calls_def all_fxns_def empty_graph_def
        resolve_calls_def fxn_node_def new_node_def find_fxn_def has_key_def)

text \<open>
  C3. On a resolved acyclic graph whose dicts have no pointer call, no clobbered bytes and
  a frame size that is a byte count (at least 0), with enough recursion depth,
  \<open>calc_all_wcs\<close> returns and finalises every function as Bounded: its own stack bytes
  plus the maximum Bounded value among its resolved callees, 0 if it has none. The
  callees are themselves finalised Bounded, so the formula holds recursively; it holds
  whether or not there are unresolved callees. A calls B calls C with 8, 12 and 4 bytes
  gives 24, 16 and 4.
\<close>

theorem acyclic_formula:
  assumes "resolved_graph cg" and "length (heap cg) < n"
    and "list_all loaded (heap cg)" and "list_all plain (heap cg)"
    and "acyclic (call_edges (heap cg))"
  shows "\<exists>cg'. calc_all_wcs n cg = Some (Inr cg') \<and>
           (\<forall>f\<in>set (all_fxns cg).
              list_all (\<lambda>c. is_bounded (heap cg' ! c)) (resolved_callees (heap cg ! f))
              \<and> wcs (heap cg' ! f)
                  = Some (Bounded (own_stack (heap cg ! f)
                                   + callee_max (heap cg') (resolved_callees (heap cg ! f)))))"
proof -
  let ?h = "heap cg"
  from assms(1) have lk: "linked ?h" and ok: "\<forall>r\<in>set (all_fxns cg). node_ok ?h r"
    by (simp_all add: resolved_graph_def)
  from calc_all_wcs_final[OF assms(1,2,3)] obtain h' where
    run: "calc_all_wcs n cg = Some (Inr (cg\<lparr>heap := h'\<rparr>))"
    and ev: "evolves ?h h'" and w: "\<forall>r\<in>set (all_fxns cg). wcs (h' ! r) \<noteq> None"
    and j: "justified h' []" and s: "settled ?h h' []"
    by (elim exE conjE)
  have len: "length h' = length ?h" using ev by (rule evolves_length)
  have lk': "linked h'" using evolves_linked[OF ev lk] .
  have ac': "acyclic (call_edges h')" using assms(5) call_edges_evolves[OF ev] by simp
  have np': "\<forall>m<length h'. has_ptr_call (h' ! m) \<noteq> Some True"
  proof (intro allI impI)
    fix m assume "m < length h'"
    then have m: "m < length ?h" using len by simp
    with assms(4) have "has_ptr_call (?h ! m) \<noteq> Some True" by (simp add: list_all_length plain_def)
    with has_ptr_evolves[OF ev m] show "has_ptr_call (h' ! m) \<noteq> Some True" by simp
  qed
  have nu: "wcs (h' ! m) \<noteq> Some Unbounded" if "m < length h'" for m
    using acyclic_no_unbounded[OF lk' ac' j np' that] .
  have main: "list_all (\<lambda>c. is_bounded (h' ! c)) (resolved_callees (?h ! f))
        \<and> wcs (h' ! f) = Some (Bounded (own_stack (?h ! f) + callee_max h' (resolved_callees (?h ! f))))"
    if f: "f \<in> set (all_fxns cg)" for f
  proof -
    from ok f obtain rs where lf: "f < length ?h" and rs: "r_calls (?h ! f) = Some rs"
      by (auto simp: node_ok_def)
    have rc: "resolved_callees (?h ! f) = rs" using rs by (rule resolved_callees_Some)
    have lf': "f < length h'" using lf len by simp
    have wn: "wcs (h' ! f) \<noteq> None" using w f by simp
    have b: "is_bounded (h' ! f)"
      using wn nu[OF lf']
      by (cases "wcs (h' ! f)"; cases "the (wcs (h' ! f))") (auto simp: is_bounded_def)
    from assms(4) lf have p: "clob_sp (?h ! f) = None"
      by (simp add: list_all_length plain_def)
    from evolves_keeps[OF ev lf] p have k: "clob_sp (h' ! f) = None" "own_stack (h' ! f) = own_stack (?h ! f)"
      by (simp_all add: keeps_def)
    show ?thesis
    proof (cases "wcs (?h ! f) = None")
      case True
      with s lf' b obtain rs' where rs': "r_calls (h' ! f) = Some rs'"
        and cb: "\<forall>c\<in>set rs'. is_bounded (h' ! c)"
        and v: "wcs (h' ! f) = Some (Bounded (final_value (h' ! f) (call_max h' rs')))"
        unfolding settled_def by blast
      from rs' rs evolves_r_calls[OF ev lf] have eq: "rs' = rs" by simp
      have nn: "\<forall>c\<in>set rs. 0 \<le> the_int (wcs (h' ! c))"
      proof
        fix c assume c: "c \<in> set rs"
        with cb eq obtain vc where vc: "wcs (h' ! c) = Some (Bounded vc)"
          by (auto dest: is_boundedE)
        from lk lf rs c have "c < length ?h" by (auto simp: linked_def node_ok_def)
        from final_nonneg[OF ev s assms(3,4) this vc] vc
        show "0 \<le> the_int (wcs (h' ! c))" by (simp add: the_int_def)
      qed
      have "call_max h' rs = callee_max h' rs" using nn by (rule call_max_callee_max)
      with v eq k cb show ?thesis
        by (simp add: rc final_value_plain list_all_iff add.commute)
    next
      case False
      then have same: "h' ! f = ?h ! f" using evolves_same[OF ev lf] by simp
      from assms(3) lf have "loaded (?h ! f)" by (simp add: list_all_length)
      with False rs have "rs = []" "wcs (?h ! f) = Some (Bounded (own_stack (?h ! f)))"
        by (auto simp: loaded_def)
      with same show ?thesis by (simp add: rc callee_max_def)
    qed
  qed
  show ?thesis
  proof (intro exI[of _ "cg\<lparr>heap := h'\<rparr>"] conjI ballI)
    show "calc_all_wcs n cg = Some (Inr (cg\<lparr>heap := h'\<rparr>))" by (rule run)
  next
    fix f assume "f \<in> set (all_fxns cg)"
    from main[OF this]
    show "list_all (\<lambda>c. is_bounded (heap (cg\<lparr>heap := h'\<rparr>) ! c)) (resolved_callees (heap cg ! f))"
      by simp
  next
    fix f assume "f \<in> set (all_fxns cg)"
    from main[OF this]
    show "wcs (heap (cg\<lparr>heap := h'\<rparr>) ! f)
                  = Some (Bounded (own_stack (heap cg ! f)
                                   + callee_max (heap (cg\<lparr>heap := h'\<rparr>)) (resolved_callees (heap cg ! f))))"
      by simp
  qed
qed

theorem acyclic_formula_witness:
  "resolved_graph (resolve_all_calls chain_graph)
   \<and> length (heap (resolve_all_calls chain_graph)) < 4
   \<and> list_all loaded (heap (resolve_all_calls chain_graph))
   \<and> list_all plain (heap (resolve_all_calls chain_graph))
   \<and> acyclic (call_edges (heap (resolve_all_calls chain_graph)))
   \<and> (\<exists>cg'. calc_all_wcs 4 (resolve_all_calls chain_graph) = Some (Inr cg')
          \<and> wcs (heap cg' ! 2) = Some (Bounded 4)
          \<and> wcs (heap cg' ! 1) = Some (Bounded 16)
          \<and> wcs (heap cg' ! 0) = Some (Bounded 24))"
proof -
  let ?g = "resolve_all_calls chain_graph"
  have r: "resolved_graph ?g"
    unfolding chain_resolved
    by (simp add: resolved_graph_def linked_def node_ok_def all_fxns_def empty_graph_def
          All_less_Suc fxn_node_def new_node_def)
  have l: "length (heap ?g) < 4" unfolding chain_resolved by (simp add: empty_graph_def)
  have ld: "list_all loaded (heap ?g)"
    unfolding chain_resolved by (simp add: empty_graph_def loaded_def fxn_node_def new_node_def)
  have pl: "list_all plain (heap ?g)"
    unfolding chain_resolved
    by (simp add: empty_graph_def plain_def own_stack_def fxn_node_def new_node_def)
  have "call_edges (heap ?g) \<subseteq> less_than"
    unfolding chain_resolved
    by (auto simp: call_edges_def empty_graph_def less_Suc_eq fxn_node_def new_node_def)
  then have ac: "acyclic (call_edges (heap ?g))" by (rule forward_acyclic)
  have a: "0 \<in> set (all_fxns ?g)" "1 \<in> set (all_fxns ?g)" "2 \<in> set (all_fxns ?g)"
    unfolding chain_resolved by (simp_all add: all_fxns_def empty_graph_def)
  have rc: "resolved_callees (heap ?g ! 0) = [Suc 0]" "resolved_callees (heap ?g ! Suc 0) = [2]"
    "resolved_callees (heap ?g ! 2) = []"
    unfolding chain_resolved by (simp_all add: resolved_callees_def empty_graph_def)
  have os: "own_stack (heap ?g ! 0) = 8" "own_stack (heap ?g ! Suc 0) = 12" "own_stack (heap ?g ! 2) = 4"
    unfolding chain_resolved by (simp_all add: own_stack_def empty_graph_def fxn_node_def)
  from acyclic_formula[OF r l ld pl ac] obtain cg' where
    run: "calc_all_wcs 4 ?g = Some (Inr cg')"
    and all: "\<forall>f\<in>set (all_fxns ?g).
              list_all (\<lambda>c. is_bounded (heap cg' ! c)) (resolved_callees (heap ?g ! f))
              \<and> wcs (heap cg' ! f)
                  = Some (Bounded (own_stack (heap ?g ! f)
                                   + callee_max (heap cg') (resolved_callees (heap ?g ! f))))"
    by blast
  from all a(3) have w2: "wcs (heap cg' ! 2) = Some (Bounded 4)"
    by (simp add: rc os callee_max_def)
  from all a(2) have w1: "wcs (heap cg' ! Suc 0) = Some (Bounded 16)"
    by (simp add: rc os callee_max_def w2 the_int_def)
  from all a(1) have w0: "wcs (heap cg' ! 0) = Some (Bounded 24)"
    by (simp add: rc os callee_max_def w1 the_int_def)
  from w1 have w1': "wcs (heap cg' ! 1) = Some (Bounded 16)" by simp
  from r l ld pl ac run w2 w1' w0 show ?thesis by blast
qed

section \<open>Unresolved callees\<close>

lemma unres_resolved:
  "resolve_all_calls unres_graph =
     empty_graph\<lparr>heap := [(fxn_node ''f'' [''g'', ''ext''] False 8)\<lparr>r_calls := Some [1], unresolved_calls := Some {''ext''}\<rparr>,
                          (fxn_node ''g'' [''ext2''] False 4)\<lparr>r_calls := Some [], unresolved_calls := Some {''ext2''}\<rparr>],
                  globals := [(''f'', 0), (''g'', 1)]\<rparr>"
  by (simp add: unres_graph_def resolve_all_calls_def all_fxns_def empty_graph_def
        resolve_calls_def fxn_node_def new_node_def find_fxn_def has_key_def)

lemma unb_callee_run:
  "analyse 3 unb_callee_graph =
     Some (Inr (empty_graph\<lparr>heap :=
        [(fxn_node ''f'' [''g'', ''ext''] False 8)\<lparr>wcs := Some Unbounded, r_calls := Some [1], unresolved_calls := Some {''ext''}\<rparr>,
         (fxn_node ''g'' [''ext2''] True 4)\<lparr>wcs := Some Unbounded, r_calls := Some [], unresolved_calls := Some {''ext2''}\<rparr>],
        globals := [(''f'', 0), (''g'', 1)]\<rparr>))"
  by (simp add: analyse_def unb_callee_graph_def resolve_all_calls_def all_fxns_def empty_graph_def
        resolve_calls_def fxn_node_def new_node_def find_fxn_def has_key_def calc_all_wcs_def
        numeral_3_eq_3 propagate_def)

text \<open>
  C6, as it stands, fails when a resolved callee is unbounded: in \<open>unb_callee_graph\<close>
  the function \<open>f\<close> has no pointer call and is on no cycle, yet it is finalised as
  \<open>unbounded\<close>, and the unresolved name of its callee \<open>g\<close>, which was evaluated, is
  not in its final unresolved set.
\<close>

theorem unbounded_callee_counterexample:
  "\<exists>cg'. analyse 3 unb_callee_graph = Some (Inr cg')
         \<and> has_ptr_call (heap cg' ! 0) = Some False
         \<and> (0, 0) \<notin> (call_edges (heap cg'))\<^sup>+
         \<and> unresolved_calls (heap (resolve_all_calls unb_callee_graph) ! 0) = Some {''ext''}
         \<and> wcs (heap cg' ! 0) = Some Unbounded
         \<and> \<not> is_bounded (heap cg' ! 0)
         \<and> resolved_callees (heap cg' ! 0) = [1]
         \<and> unresolved_calls (heap cg' ! 1) = Some {''ext2''}
         \<and> unresolved_calls (heap cg' ! 0) = Some {''ext''}"
proof -
  let ?r = "empty_graph\<lparr>heap :=
        [(fxn_node ''f'' [''g'', ''ext''] False 8)\<lparr>wcs := Some Unbounded, r_calls := Some [1], unresolved_calls := Some {''ext''}\<rparr>,
         (fxn_node ''g'' [''ext2''] True 4)\<lparr>wcs := Some Unbounded, r_calls := Some [], unresolved_calls := Some {''ext2''}\<rparr>],
        globals := [(''f'', 0), (''g'', 1)]\<rparr>"
  have "call_edges (heap ?r) \<subseteq> less_than"
    by (auto simp: call_edges_def empty_graph_def less_Suc_eq fxn_node_def new_node_def)
  then have "acyclic (call_edges (heap ?r))" by (rule forward_acyclic)
  then have nc: "(0, 0) \<notin> (call_edges (heap ?r))\<^sup>+" by (simp add: acyclic_def)
  have own: "unresolved_calls (heap (resolve_all_calls unb_callee_graph) ! 0) = Some {''ext''}"
    by (simp add: unb_callee_graph_def resolve_all_calls_def all_fxns_def empty_graph_def
        resolve_calls_def fxn_node_def new_node_def find_fxn_def has_key_def)
  have 1: "analyse 3 unb_callee_graph = Some (Inr ?r)" by (rule unb_callee_run)
  have 2: "has_ptr_call (heap ?r ! 0) = Some False"
    by (simp add: empty_graph_def fxn_node_def)
  have 3: "wcs (heap ?r ! 0) = Some Unbounded" by (simp add: empty_graph_def)
  have 4: "\<not> is_bounded (heap ?r ! 0)" using 3 by simp
  have 5: "resolved_callees (heap ?r ! 0) = [1]"
    by (simp add: empty_graph_def resolved_callees_def)
  have 6: "unresolved_calls (heap ?r ! 1) = Some {''ext2''}" by (simp add: empty_graph_def)
  have 7: "unresolved_calls (heap ?r ! 0) = Some {''ext''}" by (simp add: empty_graph_def)
  from 1 2 nc own 3 4 5 6 7 show ?thesis by (intro exI[of _ ?r] conjI)
qed

text \<open>
  C6, amended. On a resolved graph, with enough recursion depth, \<open>calc_all_wcs\<close>
  returns, and for a function with no pointer call whose resolved callees are all
  finalised Bounded, the unresolved names leave the result Bounded and the final
  unresolved set is its own unresolved names together with the final unresolved sets
  of all its resolved callees.
\<close>

theorem unresolved_calls_surfaced:
  assumes "resolved_graph cg" and "length (heap cg) < n" and "list_all loaded (heap cg)"
    and "f \<in> set (all_fxns cg)" and "has_ptr_call (heap cg ! f) \<noteq> Some True"
  shows "\<exists>cg'. calc_all_wcs n cg = Some (Inr cg') \<and>
           (list_all (\<lambda>c. is_bounded (heap cg' ! c)) (resolved_callees (heap cg ! f)) \<longrightarrow>
              is_bounded (heap cg' ! f)
              \<and> unresolved_calls (heap cg' ! f)
                  = Some (the_unresolved (heap cg ! f)
                          \<union> (\<Union>c\<in>set (resolved_callees (heap cg ! f)). the_unresolved (heap cg' ! c))))"
proof -
  let ?h = "heap cg"
  from assms(1) have lk: "linked ?h" and ok: "\<forall>r\<in>set (all_fxns cg). node_ok ?h r"
    by (simp_all add: resolved_graph_def)
  from calc_all_wcs_final[OF assms(1,2,3)] obtain h' where
    run: "calc_all_wcs n cg = Some (Inr (cg\<lparr>heap := h'\<rparr>))"
    and ev: "evolves ?h h'" and w: "\<forall>r\<in>set (all_fxns cg). wcs (h' ! r) \<noteq> None"
    and j: "justified h' []" and s: "settled ?h h' []"
    by (elim exE conjE)
  from ok assms(4) obtain rs x where lf: "f < length ?h" and rs: "r_calls (?h ! f) = Some rs"
    and x: "unresolved_calls (?h ! f) = Some x"
    by (auto simp: node_ok_def)
  have rc: "resolved_callees (?h ! f) = rs" using rs by (rule resolved_callees_Some)
  have lf': "f < length h'" using lf evolves_length[OF ev] by simp
  have E: "call_edges h' = call_edges ?h" using ev by (rule call_edges_evolves)
  have goal: "is_bounded (h' ! f)
        \<and> unresolved_calls (h' ! f) = Some (the_unresolved (?h ! f) \<union> (\<Union>c\<in>set rs. the_unresolved (h' ! c)))"
    if all: "\<forall>c\<in>set rs. is_bounded (h' ! c)"
  proof -
    have nu: "wcs (h' ! f) \<noteq> Some Unbounded"
    proof
      assume u: "wcs (h' ! f) = Some Unbounded"
      with j lf' have "has_ptr_call (h' ! f) = Some True
          \<or> (\<exists>c. (f, c) \<in> call_edges h' \<and> wcs (h' ! c) = Some Unbounded)"
        unfolding justified_def by auto
      then show False
      proof
        assume "has_ptr_call (h' ! f) = Some True"
        with has_ptr_evolves[OF ev lf] assms(5) show False by simp
      next
        assume "\<exists>c. (f, c) \<in> call_edges h' \<and> wcs (h' ! c) = Some Unbounded"
        then obtain c where c: "(f, c) \<in> call_edges ?h" "wcs (h' ! c) = Some Unbounded"
          unfolding E by blast
        from c(1) rs have "c \<in> set rs" by (auto simp: call_edges_def)
        with all c(2) show False by auto
      qed
    qed
    have wn: "wcs (h' ! f) \<noteq> None" using w assms(4) by simp
    have b: "is_bounded (h' ! f)"
      using wn nu by (cases "wcs (h' ! f)"; cases "the (wcs (h' ! f))") (auto simp: is_bounded_def)
    have "unresolved_calls (h' ! f) = Some (the_unresolved (?h ! f) \<union> (\<Union>c\<in>set rs. the_unresolved (h' ! c)))"
    proof (cases "wcs (?h ! f) = None")
      case True
      with s lf' b obtain rs' where rs': "r_calls (h' ! f) = Some rs'"
        and u: "unresolved_calls (h' ! f)
                  = Some (the_unresolved (?h ! f) \<union> (\<Union>c\<in>set rs'. the_unresolved (h' ! c)))"
        unfolding settled_def by blast
      from rs' rs evolves_r_calls[OF ev lf] have "rs' = rs" by simp
      with u show ?thesis by simp
    next
      case False
      then have same: "h' ! f = ?h ! f" using evolves_same[OF ev lf] by simp
      from assms(3) lf have "loaded (?h ! f)" by (simp add: list_all_length)
      with False rs have "rs = []" by (auto simp: loaded_def)
      with same x show ?thesis by (simp add: the_unresolved_def)
    qed
    with b show ?thesis by simp
  qed
  show ?thesis
  proof (intro exI[of _ "cg\<lparr>heap := h'\<rparr>"] conjI impI)
    show "calc_all_wcs n cg = Some (Inr (cg\<lparr>heap := h'\<rparr>))" by (rule run)
  next
    assume "list_all (\<lambda>c. is_bounded (heap (cg\<lparr>heap := h'\<rparr>) ! c)) (resolved_callees (heap cg ! f))"
    then have a: "\<forall>c\<in>set rs. is_bounded (h' ! c)" by (simp add: rc list_all_iff)
    from goal[OF a] show "is_bounded (heap (cg\<lparr>heap := h'\<rparr>) ! f)" by simp
  next
    assume "list_all (\<lambda>c. is_bounded (heap (cg\<lparr>heap := h'\<rparr>) ! c)) (resolved_callees (heap cg ! f))"
    then have a: "\<forall>c\<in>set rs. is_bounded (h' ! c)" by (simp add: rc list_all_iff)
    from goal[OF a] show "unresolved_calls (heap (cg\<lparr>heap := h'\<rparr>) ! f)
                  = Some (the_unresolved (heap cg ! f)
                          \<union> (\<Union>c\<in>set (resolved_callees (heap cg ! f)). the_unresolved (heap (cg\<lparr>heap := h'\<rparr>) ! c)))"
      by (simp add: rc)
  qed
qed

theorem unresolved_calls_surfaced_witness:
  "resolved_graph (resolve_all_calls unres_graph)
   \<and> length (heap (resolve_all_calls unres_graph)) < 3
   \<and> list_all loaded (heap (resolve_all_calls unres_graph))
   \<and> 0 \<in> set (all_fxns (resolve_all_calls unres_graph))
   \<and> has_ptr_call (heap (resolve_all_calls unres_graph) ! 0) \<noteq> Some True
   \<and> (\<exists>cg'. calc_all_wcs 3 (resolve_all_calls unres_graph) = Some (Inr cg')
          \<and> list_all (\<lambda>c. is_bounded (heap cg' ! c))
               (resolved_callees (heap (resolve_all_calls unres_graph) ! 0))
          \<and> is_bounded (heap cg' ! 0)
          \<and> unresolved_calls (heap cg' ! 0) = Some {''ext'', ''ext2''})"
proof -
  let ?g = "resolve_all_calls unres_graph"
  have r: "resolved_graph ?g"
    unfolding unres_resolved
    by (simp add: resolved_graph_def linked_def node_ok_def all_fxns_def empty_graph_def
          All_less_Suc fxn_node_def new_node_def)
  have l: "length (heap ?g) < 3" unfolding unres_resolved by (simp add: empty_graph_def)
  have ld: "list_all loaded (heap ?g)"
    unfolding unres_resolved by (simp add: empty_graph_def loaded_def fxn_node_def new_node_def)
  have a0: "0 \<in> set (all_fxns ?g)" and a1: "Suc 0 \<in> set (all_fxns ?g)"
    unfolding unres_resolved by (simp_all add: all_fxns_def empty_graph_def)
  have p0: "has_ptr_call (heap ?g ! 0) \<noteq> Some True"
    and p1: "has_ptr_call (heap ?g ! Suc 0) \<noteq> Some True"
    unfolding unres_resolved by (simp_all add: empty_graph_def fxn_node_def)
  have rc: "resolved_callees (heap ?g ! 0) = [Suc 0]" "resolved_callees (heap ?g ! Suc 0) = []"
    unfolding unres_resolved by (simp_all add: resolved_callees_def empty_graph_def)
  have un: "the_unresolved (heap ?g ! 0) = {''ext''}" "the_unresolved (heap ?g ! Suc 0) = {''ext2''}"
    unfolding unres_resolved by (simp_all add: the_unresolved_def empty_graph_def)
  from unresolved_calls_surfaced[OF r l ld a1 p1] obtain cg1 where
    run1: "calc_all_wcs 3 ?g = Some (Inr cg1)"
    and g1: "is_bounded (heap cg1 ! Suc 0)" "unresolved_calls (heap cg1 ! Suc 0) = Some {''ext2''}"
    by (auto simp: rc un)
  from unresolved_calls_surfaced[OF r l ld a0 p0] obtain cg' where
    run: "calc_all_wcs 3 ?g = Some (Inr cg')"
    and imp: "list_all (\<lambda>c. is_bounded (heap cg' ! c)) (resolved_callees (heap ?g ! 0)) \<longrightarrow>
              is_bounded (heap cg' ! 0)
              \<and> unresolved_calls (heap cg' ! 0)
                  = Some (the_unresolved (heap ?g ! 0)
                          \<union> (\<Union>c\<in>set (resolved_callees (heap ?g ! 0)). the_unresolved (heap cg' ! c)))"
    by blast
  from run run1 have eq: "cg1 = cg'" by simp
  have cb: "list_all (\<lambda>c. is_bounded (heap cg' ! c)) (resolved_callees (heap ?g ! 0))"
    using g1(1) eq by (simp add: rc)
  have u1: "the_unresolved (heap cg' ! Suc 0) = {''ext2''}"
    using g1(2) eq by (simp add: the_unresolved_Some)
  from imp cb have f: "is_bounded (heap cg' ! 0)"
    "unresolved_calls (heap cg' ! 0) = Some {''ext'', ''ext2''}"
    by (auto simp: rc un u1)
  from r l ld a0 p0 run cb f show ?thesis by blast
qed

section \<open>Running the analysis twice\<close>

lemma unres_run1: "analyse 3 unres_graph = Some (Inr unres_once)"
  by (simp add: analyse_def unres_graph_def unres_once_def resolve_all_calls_def all_fxns_def
        empty_graph_def resolve_calls_def fxn_node_def new_node_def find_fxn_def has_key_def
        calc_all_wcs_def numeral_3_eq_3 propagate_def finish_wcs_def insert_commute)

lemma unres_run2: "analyse 3 unres_once = Some (Inr unres_twice)"
  by (simp add: analyse_def unres_once_def unres_twice_def resolve_all_calls_def all_fxns_def
        empty_graph_def resolve_calls_def fxn_node_def new_node_def find_fxn_def has_key_def
        calc_all_wcs_def numeral_3_eq_3)

text \<open>
  C8, as it stands, fails. On \<open>unres_graph\<close> the first run leaves \<open>f\<close> with the
  unresolved names \<open>ext\<close> and \<open>ext2\<close>, the second of them propagated from its callee
  \<open>g\<close>. The second resolution pass resets the set of \<open>f\<close> to its own unresolved
  names, and the second computation returns at once on the memoised \<open>wcs\<close> without
  propagating again: \<open>f\<close> is left with \<open>ext\<close> alone.
\<close>

theorem analyse_twice_counterexample:
  "analyse 3 unres_graph = Some (Inr unres_once)
   \<and> analyse 3 unres_once = Some (Inr unres_twice)
   \<and> unresolved_calls (heap unres_once ! 0) = Some {''ext'', ''ext2''}
   \<and> unresolved_calls (heap unres_twice ! 0) = Some {''ext''}
   \<and> unresolved_calls (heap unres_twice ! 0) \<noteq> unresolved_calls (heap unres_once ! 0)"
proof -
  have 1: "unresolved_calls (heap unres_once ! 0) = Some {''ext'', ''ext2''}"
    by (simp add: unres_once_def empty_graph_def)
  have 2: "unresolved_calls (heap unres_twice ! 0) = Some {''ext''}"
    by (simp add: unres_twice_def empty_graph_def)
  have 3: "unresolved_calls (heap unres_twice ! 0) \<noteq> unresolved_calls (heap unres_once ! 0)"
    unfolding 1 2 by auto
  from unres_run1 unres_run2 1 2 3 show ?thesis by (intro conjI)
qed

text \<open>
  C8, amended. On a loaded graph, with enough recursion depth, resolution followed by
  the computation returns, and so does a second run on its result. The second run leaves
  every function of the namespaces with the same \<open>wcs\<close> and the same resolved callees
  as the first; its unresolved names are those of its own calls, as the resolution pass
  alone computes them.
\<close>

theorem analyse_twice:
  assumes "loaded_graph cg" and "length (heap cg) < n" and "f \<in> set (all_fxns cg)"
  shows "\<exists>cg1 cg2. analyse n cg = Some (Inr cg1) \<and> analyse n cg1 = Some (Inr cg2)
          \<and> wcs (heap cg2 ! f) = wcs (heap cg1 ! f)
          \<and> r_calls (heap cg2 ! f) = r_calls (heap cg1 ! f)
          \<and> unresolved_calls (heap cg2 ! f) = unresolved_calls (heap (resolve_all_calls cg) ! f)"
proof -
  let ?r = "resolve_all_calls cg"
  have r1: "resolved_graph ?r" using assms(1) by (rule resolve_all_resolved)
  have l1: "length (heap ?r) < n" using assms(2) by simp
  from calc_all_wcs_run[OF r1 l1] obtain h1 where
    run1: "calc_all_wcs n ?r = Some (Inr (?r\<lparr>heap := h1\<rparr>))"
    and ev: "evolves (heap ?r) h1" and w: "\<forall>r\<in>set (all_fxns ?r). wcs (h1 ! r) \<noteq> None"
    by (elim exE conjE)
  let ?cg1 = "?r\<lparr>heap := h1\<rparr>"
  let ?cg2 = "resolve_all_calls ?cg1"
  have a1: "analyse n cg = Some (Inr ?cg1)" using run1 by (simp add: analyse_def)
  have rng: "\<forall>r\<in>set (all_fxns cg). r < length (heap cg)"
    using assms(1) by (simp add: loaded_graph_def)
  have len1: "length h1 = length (heap cg)" using evolves_length[OF ev] by simp
  have nth2: "heap ?cg2 ! r = resolve_calls ?cg1 (h1 ! r)" if "r \<in> set (all_fxns cg)" for r
  proof -
    from that rng len1 have "r < length (heap ?cg1)" by simp
    from resolve_all_nth[OF this] that show ?thesis by simp
  qed
  have w2: "\<forall>r\<in>set (all_fxns cg). wcs (heap ?cg2 ! r) \<noteq> None"
    using w nth2 by simp
  from assms(2) obtain k where k: "n = Suc k" by (cases n) auto
  have "calc_fxns n (all_fxns ?cg2) (heap ?cg2) = Some (Inr (heap ?cg2))"
    unfolding k using w2 by (intro calc_fxns_noop) simp
  then have "calc_all_wcs n ?cg2 = Some (Inr (?cg2\<lparr>heap := heap ?cg2\<rparr>))"
    by (simp add: calc_all_wcs_def)
  then have a2: "analyse n ?cg1 = Some (Inr ?cg2)" by (simp add: analyse_def)
  have lf: "f < length (heap cg)" using rng assms(3) by simp
  then have lf': "f < length (heap ?r)" by simp
  have rf: "heap ?r ! f = resolve_calls cg (heap cg ! f)"
    using resolve_all_nth[OF lf] assms(3) by simp
  have ct: "calls (h1 ! f) = calls (heap cg ! f)" "tu (h1 ! f) = tu (heap cg ! f)"
    using evolves_calls[OF ev lf'] rf by simp_all
  have g: "globals ?cg1 = globals cg" "locals ?cg1 = locals cg" by simp_all
  have 1: "wcs (heap ?cg2 ! f) = wcs (heap ?cg1 ! f)"
    using nth2[OF assms(3)] by simp
  have 2: "r_calls (heap ?cg2 ! f) = r_calls (heap ?cg1 ! f)"
    using nth2[OF assms(3)] resolve_calls_cong(1)[OF g ct] evolves_r_calls[OF ev lf'] rf
    by simp
  have 3: "unresolved_calls (heap ?cg2 ! f) = unresolved_calls (heap ?r ! f)"
    using nth2[OF assms(3)] resolve_calls_cong(2)[OF g ct] rf by simp
  from a1 a2 1 2 3 show ?thesis by (intro exI[of _ ?cg1] exI[of _ ?cg2] conjI)
qed

theorem analyse_twice_witness:
  "loaded_graph unres_graph \<and> length (heap unres_graph) < 3 \<and> 0 \<in> set (all_fxns unres_graph)
   \<and> (\<exists>cg1 cg2. analyse 3 unres_graph = Some (Inr cg1) \<and> analyse 3 cg1 = Some (Inr cg2)
          \<and> wcs (heap cg2 ! 0) = wcs (heap cg1 ! 0)
          \<and> r_calls (heap cg2 ! 0) = r_calls (heap cg1 ! 0)
          \<and> unresolved_calls (heap cg2 ! 0) = Some {''ext''})"
proof -
  have lg: "loaded_graph unres_graph"
    by (simp add: loaded_graph_def unres_graph_def all_fxns_def empty_graph_def All_less_Suc)
  have l: "length (heap unres_graph) < 3" by (simp add: unres_graph_def empty_graph_def)
  have a: "0 \<in> set (all_fxns unres_graph)"
    by (simp add: unres_graph_def all_fxns_def empty_graph_def)
  have own: "unresolved_calls (heap (resolve_all_calls unres_graph) ! 0) = Some {''ext''}"
    unfolding unres_resolved by (simp add: empty_graph_def)
  from analyse_twice[OF lg l a] obtain cg1 cg2 where
    r: "analyse 3 unres_graph = Some (Inr cg1)" "analyse 3 cg1 = Some (Inr cg2)"
      "wcs (heap cg2 ! 0) = wcs (heap cg1 ! 0)" "r_calls (heap cg2 ! 0) = r_calls (heap cg1 ! 0)"
      "unresolved_calls (heap cg2 ! 0) = unresolved_calls (heap (resolve_all_calls unres_graph) ! 0)"
    by blast
  from r(5) own have u: "unresolved_calls (heap cg2 ! 0) = Some {''ext''}" by simp
  from lg l a r(1-4) u show ?thesis by blast
qed

section \<open>Manual entries as leaves\<close>

lemma manual_resolved:
  "resolve_all_calls manual_graph =
     empty_graph\<lparr>heap := [(fxn_node ''main'' [''__assert_func''] False 8)\<lparr>r_calls := Some [1],
                              unresolved_calls := Some {}\<rparr>,
                           resolved_manual ''__assert_func'' 16],
                  globals := [(''main'', 0), (''__assert_func'', 1)]\<rparr>"
  by (simp add: manual_graph_def resolve_all_calls_def all_fxns_def empty_graph_def
        resolve_calls_def fxn_node_def new_node_def find_fxn_def has_key_def manual_node_def
        resolved_manual_def)

text \<open>
  C9. A manual line \<open>(fxn, b)\<close> whose name is not a global yet is read without an
  exception, and creates a dict that \<open>find_fxn\<close> returns for that name from every unit;
  with enough recursion depth the analysis returns and leaves that dict with the
  \<open>wcs\<close> \<open>b\<close>, no resolved callees and no unresolved names. On a resolved graph, a
  function not yet computed, with no pointer call and no clobbered bytes, whose only
  resolved callee is the dict of a manual line \<open>(g, c)\<close>, is finalised as its own stack
  bytes plus \<open>c\<close> (plus 0 if \<open>c\<close> is negative): 8 bytes calling a manual entry of 16
  gives 24.
\<close>

theorem manual_override_leaf:
  "(loaded_graph cg \<and> \<not> has_key (globals cg) fxn \<and> Suc (length (heap cg)) < n
      \<longrightarrow> (\<exists>cg1 cg2. read_manual_line cg (fxn, b) = Inr cg1
             \<and> find_fxn cg1 t fxn = Some (length (heap cg))
             \<and> analyse n cg1 = Some (Inr cg2)
             \<and> wcs (heap cg2 ! length (heap cg)) = Some (Bounded b)
             \<and> r_calls (heap cg2 ! length (heap cg)) = Some []
             \<and> unresolved_calls (heap cg2 ! length (heap cg)) = Some {}))
   \<and> (resolved_graph cgr \<and> length (heap cgr) < k \<and> list_all loaded (heap cgr)
       \<and> f \<in> set (all_fxns cgr) \<and> wcs (heap cgr ! f) = None
       \<and> has_ptr_call (heap cgr ! f) \<noteq> Some True \<and> clob_sp (heap cgr ! f) = None
       \<and> r_calls (heap cgr ! f) = Some [m] \<and> heap cgr ! m = resolved_manual g c
      \<longrightarrow> (\<exists>cg'. calc_all_wcs k cgr = Some (Inr cg')
             \<and> wcs (heap cg' ! f) = Some (Bounded (own_stack (heap cgr ! f) + max 0 c))))"
proof (intro conjI impI)
  assume "loaded_graph cg \<and> \<not> has_key (globals cg) fxn \<and> Suc (length (heap cg)) < n"
  then have a: "loaded_graph cg" "\<not> has_key (globals cg) fxn" "Suc (length (heap cg)) < n"
    by simp_all
  show "\<exists>cg1 cg2. read_manual_line cg (fxn, b) = Inr cg1
             \<and> find_fxn cg1 t fxn = Some (length (heap cg))
             \<and> analyse n cg1 = Some (Inr cg2)
             \<and> wcs (heap cg2 ! length (heap cg)) = Some (Bounded b)
             \<and> r_calls (heap cg2 ! length (heap cg)) = Some []
             \<and> unresolved_calls (heap cg2 ! length (heap cg)) = Some {}"
    using a by (rule manual_entry_final)
next
  assume "resolved_graph cgr \<and> length (heap cgr) < k \<and> list_all loaded (heap cgr)
       \<and> f \<in> set (all_fxns cgr) \<and> wcs (heap cgr ! f) = None
       \<and> has_ptr_call (heap cgr ! f) \<noteq> Some True \<and> clob_sp (heap cgr ! f) = None
       \<and> r_calls (heap cgr ! f) = Some [m] \<and> heap cgr ! m = resolved_manual g c"
  then have a: "resolved_graph cgr" "length (heap cgr) < k" "list_all loaded (heap cgr)"
      "f \<in> set (all_fxns cgr)" "wcs (heap cgr ! f) = None"
      "has_ptr_call (heap cgr ! f) \<noteq> Some True" "clob_sp (heap cgr ! f) = None"
      "r_calls (heap cgr ! f) = Some [m]"
    and mm: "heap cgr ! m = resolved_manual g c"
    by simp_all
  from mm have "wcs (heap cgr ! m) = Some (Bounded c)"
    by (simp add: resolved_manual_def manual_node_def)
  with a show "\<exists>cg'. calc_all_wcs k cgr = Some (Inr cg')
             \<and> wcs (heap cg' ! f) = Some (Bounded (own_stack (heap cgr ! f) + max 0 c))"
    by (rule caller_of_leaf)
qed

theorem manual_override_leaf_witness:
  "loaded_graph caller_graph \<and> \<not> has_key (globals caller_graph) ''__assert_func''
   \<and> read_manual_line caller_graph (''__assert_func'', 16) = Inr manual_graph
   \<and> find_fxn manual_graph ''prog.elf'' ''__assert_func'' = Some 1
   \<and> resolved_graph (resolve_all_calls manual_graph)
   \<and> r_calls (heap (resolve_all_calls manual_graph) ! 0) = Some [1]
   \<and> heap (resolve_all_calls manual_graph) ! 1 = resolved_manual ''__assert_func'' 16
   \<and> own_stack (heap (resolve_all_calls manual_graph) ! 0) = 8
   \<and> (\<exists>cg2. analyse 3 manual_graph = Some (Inr cg2)
         \<and> wcs (heap cg2 ! 1) = Some (Bounded 16)
         \<and> r_calls (heap cg2 ! 1) = Some []
         \<and> unresolved_calls (heap cg2 ! 1) = Some {}
         \<and> wcs (heap cg2 ! 0) = Some (Bounded 24))"
proof -
  let ?r = "resolve_all_calls manual_graph"
  have lg: "loaded_graph caller_graph"
    by (simp add: loaded_graph_def caller_graph_def all_fxns_def empty_graph_def)
  have nk: "\<not> has_key (globals caller_graph) ''__assert_func''"
    by (simp add: caller_graph_def empty_graph_def has_key_def)
  have l: "Suc (length (heap caller_graph)) < 3" by (simp add: caller_graph_def empty_graph_def)
  have len: "length (heap caller_graph) = Suc 0" by (simp add: caller_graph_def empty_graph_def)
  have rd: "read_manual_line caller_graph (''__assert_func'', 16) = Inr manual_graph"
    by (simp add: read_manual_line_def caller_graph_def manual_graph_def empty_graph_def
          has_key_def)
  have rg: "resolved_graph ?r"
    unfolding manual_resolved
    by (simp add: resolved_graph_def linked_def node_ok_def all_fxns_def empty_graph_def
          resolved_manual_def manual_node_def fxn_node_def new_node_def All_less_Suc)
  have lr: "length (heap ?r) < 3" unfolding manual_resolved by (simp add: empty_graph_def)
  have ld: "list_all loaded (heap ?r)"
    unfolding manual_resolved
    by (simp add: loaded_def empty_graph_def resolved_manual_def manual_node_def fxn_node_def
          new_node_def own_stack_def)
  have f: "0 \<in> set (all_fxns ?r)" unfolding manual_resolved by (simp add: all_fxns_def empty_graph_def)
  have wf: "wcs (heap ?r ! 0) = None"
    unfolding manual_resolved by (simp add: empty_graph_def fxn_node_def new_node_def)
  have np: "has_ptr_call (heap ?r ! 0) \<noteq> Some True"
    unfolding manual_resolved by (simp add: empty_graph_def fxn_node_def new_node_def)
  have nc: "clob_sp (heap ?r ! 0) = None"
    unfolding manual_resolved by (simp add: empty_graph_def fxn_node_def new_node_def)
  have rs: "r_calls (heap ?r ! 0) = Some [Suc 0]"
    unfolding manual_resolved by (simp add: empty_graph_def)
  have mm: "heap ?r ! Suc 0 = resolved_manual ''__assert_func'' 16"
    unfolding manual_resolved by (simp add: empty_graph_def)
  have own: "own_stack (heap ?r ! 0) = 8"
    unfolding manual_resolved by (simp add: empty_graph_def fxn_node_def new_node_def own_stack_def)
  note inst = manual_override_leaf[of caller_graph "''__assert_func''" 3 16 "''prog.elf''"
      ?r 3 0 "Suc 0" "''__assert_func''" 16]
  from inst lg nk l obtain cg1 cg2 where
    p1: "read_manual_line caller_graph (''__assert_func'', 16) = Inr cg1"
      "find_fxn cg1 ''prog.elf'' ''__assert_func'' = Some (length (heap caller_graph))"
      "analyse 3 cg1 = Some (Inr cg2)"
      "wcs (heap cg2 ! length (heap caller_graph)) = Some (Bounded 16)"
      "r_calls (heap cg2 ! length (heap caller_graph)) = Some []"
      "unresolved_calls (heap cg2 ! length (heap caller_graph)) = Some {}"
    by blast
  from p1(1) rd have c1: "cg1 = manual_graph" by simp
  from inst rg lr ld f wf np nc rs mm obtain cg' where
    p2: "calc_all_wcs 3 ?r = Some (Inr cg')"
      "wcs (heap cg' ! 0) = Some (Bounded (own_stack (heap ?r ! 0) + max 0 16))"
    by blast
  from p1(3) p2(1) have c2: "cg' = cg2" unfolding c1 analyse_def by simp
  have ff: "find_fxn manual_graph ''prog.elf'' ''__assert_func'' = Some 1"
    using p1(2) unfolding c1 len by simp
  have rs1: "r_calls (heap ?r ! 0) = Some [1]" using rs by simp
  have mm1: "heap ?r ! 1 = resolved_manual ''__assert_func'' 16" using mm by simp
  have a: "analyse 3 manual_graph = Some (Inr cg2)" using p1(3) unfolding c1 .
  have w1: "wcs (heap cg2 ! 1) = Some (Bounded 16)" using p1(4) unfolding len by simp
  have r1: "r_calls (heap cg2 ! 1) = Some []" using p1(5) unfolding len by simp
  have u1: "unresolved_calls (heap cg2 ! 1) = Some {}" using p1(6) unfolding len by simp
  have w0: "wcs (heap cg2 ! 0) = Some (Bounded 24)" using p2(2) unfolding c2 own by simp
  from a w1 r1 u1 w0 have ex: "\<exists>cg2. analyse 3 manual_graph = Some (Inr cg2)
         \<and> wcs (heap cg2 ! 1) = Some (Bounded 16)
         \<and> r_calls (heap cg2 ! 1) = Some []
         \<and> unresolved_calls (heap cg2 ! 1) = Some {}
         \<and> wcs (heap cg2 ! 0) = Some (Bounded 24)"
    by (intro exI[of _ cg2] conjI)
  from lg nk rd ff rg rs1 mm1 own ex show ?thesis by (intro conjI)
qed

end
